theory Spec2Isabelle
  imports
    Main
    "HOL-Library.Sublist"
    "HOL-Library.Multiset"
    "HOL-Library.List_Lexorder"
    "HOL-Library.Char_ord"
begin

unbundle bit_operations_syntax

section \<open>Python primitives used by truth.py\<close>

text \<open>
  Exceptions are values. \<open>EvalError\<close> stands for whatever exception the host language's
  \<open>eval\<close> or \<open>format\<close> raises (SyntaxError, NameError, TypeError, ...).
\<close>

datatype error = AssertionError | IndexError | ValueError | KeyError | EvalError

definition ebind :: "error + 'a \<Rightarrow> ('a \<Rightarrow> error + 'b) \<Rightarrow> error + 'b" where
  "ebind m f = (case m of Inl e \<Rightarrow> Inl e | Inr x \<Rightarrow> f x)"

text \<open>
  \<open>list.insert(i, x)\<close>: a negative index counts from the end, and every index is clamped
  into \<open>0 .. len\<close>; the call never raises.
\<close>

definition py_insert :: "int \<Rightarrow> 'a \<Rightarrow> 'a list \<Rightarrow> 'a list" where
  "py_insert i x xs =
     (let n = int (length xs);
          j = (if i < 0 then max 0 (i + n) else min i n)
      in take (nat j) xs @ x # drop (nat j) xs)"

text \<open>\<open>list.index(x)\<close>: position of the first occurrence, ValueError when there is none.\<close>

fun py_index :: "'a list \<Rightarrow> 'a \<Rightarrow> nat option" where
  "py_index [] x = None"
| "py_index (y # ys) x = (if y = x then Some 0 else map_option Suc (py_index ys x))"

definition index_of :: "'a list \<Rightarrow> 'a \<Rightarrow> error + int" where
  "index_of xs x = (case py_index xs x of None \<Rightarrow> Inl ValueError | Some i \<Rightarrow> Inr (int i))"

text \<open>\<open>xs[i]\<close> with Python's negative indices; IndexError out of range.\<close>

definition py_get :: "'a list \<Rightarrow> int \<Rightarrow> error + 'a" where
  "py_get xs i =
     (if 0 \<le> i \<and> i < int (length xs) then Inr (xs ! nat i)
      else if i < 0 \<and> - int (length xs) \<le> i then Inr (xs ! nat (int (length xs) + i))
      else Inl IndexError)"

text \<open>
  A \<open>dict\<close> keeps its keys in insertion order: an association list in which every key
  occurs once. Storing under an existing key replaces the value where the key stands,
  storing under a new key appends.
\<close>

fun dict_set :: "('k \<times> 'v) list \<Rightarrow> 'k \<Rightarrow> 'v \<Rightarrow> ('k \<times> 'v) list" where
  "dict_set [] k v = [(k, v)]"
| "dict_set ((k', v') # d) k v = (if k' = k then (k, v) # d else (k', v') # dict_set d k v)"

definition dict_of :: "('k \<times> 'v) list \<Rightarrow> ('k \<times> 'v) list" where
  "dict_of ps = fold (\<lambda>(k, v) d. dict_set d k v) ps []"

definition dict_get :: "('k \<times> 'v) list \<Rightarrow> 'k \<Rightarrow> error + 'v" where
  "dict_get d k = (case map_of d k of None \<Rightarrow> Inl KeyError | Some v \<Rightarrow> Inr v)"

text \<open>\<open>d[k] += n\<close>\<close>

definition dict_add :: "('k \<times> int) list \<Rightarrow> 'k \<Rightarrow> int \<Rightarrow> error + ('k \<times> int) list" where
  "dict_add d k n = ebind (dict_get d k) (\<lambda>v. Inr (dict_set d k (v + n)))"

subsection \<open>The random source\<close>

text \<open>
  The module \<open>random\<close> is modelled by the sequence of its raw draws, passed in and handed
  back: \<open>randbelow n\<close> takes the next draw modulo \<open>n\<close> (an exhausted sequence keeps
  drawing 0). A statement for every sequence of draws is a statement for every outcome of
  the random choices.
\<close>

definition randbelow :: "nat \<Rightarrow> nat list \<Rightarrow> nat \<times> nat list" where
  "randbelow n rs = (case rs of [] \<Rightarrow> (0, []) | r # rs' \<Rightarrow> (r mod n, rs'))"

text \<open>\<open>random.choice(seq)\<close>: IndexError on an empty sequence.\<close>

definition random_choice :: "'a list \<Rightarrow> nat list \<Rightarrow> error + ('a \<times> nat list)" where
  "random_choice xs rs =
     (if xs = [] then Inl IndexError
      else let (j, rs') = randbelow (length xs) rs in Inr (xs ! j, rs'))"

text \<open>\<open>random.randint(a, b)\<close> for \<open>a \<le> b\<close>.\<close>

definition random_randint :: "int \<Rightarrow> int \<Rightarrow> nat list \<Rightarrow> int \<times> nat list" where
  "random_randint a b rs = (let (j, rs') = randbelow (nat (b - a + 1)) rs in (a + int j, rs'))"

text \<open>
  \<open>random.shuffle(x)\<close>: for \<open>i\<close> from \<open>len(x) - 1\<close> down to 1, pick \<open>j\<close> below \<open>i + 1\<close> and
  swap \<open>x[i]\<close> with \<open>x[j]\<close>.
\<close>

fun shuffle_loop :: "nat \<Rightarrow> 'a list \<Rightarrow> nat list \<Rightarrow> 'a list \<times> nat list" where
  "shuffle_loop 0 xs rs = (xs, rs)"
| "shuffle_loop (Suc k) xs rs =
     (let (j, rs') = randbelow (Suc (Suc k)) rs
      in shuffle_loop k (xs[Suc k := xs ! j, j := xs ! Suc k]) rs')"

definition random_shuffle :: "'a list \<Rightarrow> nat list \<Rightarrow> 'a list \<times> nat list" where
  "random_shuffle xs rs = shuffle_loop (length xs - 1) xs rs"

section \<open>ExpressionBuilder\<close>

record ExpressionBuilder =
  eb_paren_count :: int
  eb_variables :: "string list"
  eb_operators :: "string list"
  eb_not_expr :: "string \<times> int"
  eb_parentheses :: "(string \<times> int) list"
  eb_expression :: "string list"

definition generate_variables_order :: "string list \<Rightarrow> nat list \<Rightarrow> string list \<times> nat list" where
  "generate_variables_order choices rs = random_shuffle choices rs"

definition generate_operator_order :: "string list \<Rightarrow> nat list \<Rightarrow> string list \<times> nat list" where
  "generate_operator_order ops rs = random_shuffle ops rs"

definition generate_not_subexpression ::
  "string list \<Rightarrow> nat list \<Rightarrow> error + ((string \<times> int) \<times> nat list)" where
  "generate_not_subexpression vs rs =
     ebind (random_choice vs rs) (\<lambda>(not_variable, rs').
       let (not_precedence, rs'') = random_randint 0 1 rs'
       in Inr ((not_variable, not_precedence), rs''))"

text \<open>\<open>ExpressionBuilder.__init__\<close>; the assertion comes before any random draw.\<close>

definition ExpressionBuilder_init ::
  "string list \<Rightarrow> string list \<Rightarrow> int \<Rightarrow> nat list \<Rightarrow> error + (ExpressionBuilder \<times> nat list)" where
  "ExpressionBuilder_init vs ops pc rs =
     (if int (length vs) \<noteq> int (length ops) + 1 then Inl AssertionError
      else
        let (vs', rs1) = generate_variables_order vs rs;
            (ops', rs2) = generate_operator_order ops rs1
        in ebind (generate_not_subexpression vs' rs2) (\<lambda>(ne, rs3).
             Inr (\<lparr>eb_paren_count = pc, eb_variables = vs', eb_operators = ops',
                   eb_not_expr = ne, eb_parentheses = [], eb_expression = []\<rparr>, rs3)))"

text \<open>\<open>__generate_indices_of_variables\<close>: the first variable that is missing raises.\<close>

fun collect_indices :: "string list \<Rightarrow> string list \<Rightarrow> error + (string \<times> int) list" where
  "collect_indices e [] = Inr []"
| "collect_indices e (var # vs) =
     ebind (index_of e var) (\<lambda>i.
       ebind (collect_indices e vs) (\<lambda>ps. Inr ((var, i) # ps)))"

definition generate_indices_of_variables :: "ExpressionBuilder \<Rightarrow> error + (string \<times> int) list" where
  "generate_indices_of_variables b =
     ebind (collect_indices (eb_expression b) (eb_variables b)) (\<lambda>ps.
       Inr (dict_of (sort_key snd ps)))"

text \<open>\<open>__generate_parentheses_positions\<close>\<close>

definition generate_parentheses_positions ::
  "(string \<times> int) list \<Rightarrow> nat list \<Rightarrow> error + ((string \<times> string) \<times> nat list)" where
  "generate_parentheses_positions par rs =
     ebind (random_choice (butlast (map fst par)) rs) (\<lambda>(left, rs').
       ebind (dict_get par left) (\<lambda>v.
         ebind (index_of par (left, v)) (\<lambda>p.
           ebind (py_get par (p + 1)) (\<lambda>kv. Inr ((left, fst kv), rs')))))"

text \<open>
  \<open>__insert_parentheses\<close>; its argument \<open>parentheses\<close> is the object \<open>self.parentheses\<close>,
  so the adjusted entries are stored in the builder.
\<close>

definition insert_parentheses ::
  "ExpressionBuilder \<Rightarrow> string \<Rightarrow> string \<Rightarrow> error + ExpressionBuilder" where
  "insert_parentheses b left right =
     ebind (if right = fst (eb_not_expr b) then dict_add (eb_parentheses b) right 2
            else Inr (eb_parentheses b)) (\<lambda>par1.
       ebind (dict_add par1 right 1) (\<lambda>par2.
         ebind (dict_get par2 left) (\<lambda>pl.
           ebind (dict_get par2 right) (\<lambda>pr.
             let b' = b\<lparr>eb_parentheses := par2\<rparr> in
             if pl = 0 \<and> pr \<ge> int (length (eb_expression b)) - 1 then Inr b'
             else Inr (b'\<lparr>eb_expression :=
                        py_insert pl ''('' (py_insert pr '')'' (eb_expression b))\<rparr>)))))"

text \<open>The backbone: \<open>expression.insert(2 * i + 1, operator)\<close> for each enumerated operator.\<close>

definition insert_operators :: "string list \<Rightarrow> string list \<Rightarrow> string list" where
  "insert_operators vs ops =
     fold (\<lambda>(i, operator) e. py_insert (2 * int i + 1) operator e) (enumerate 0 ops) vs"

text \<open>Lines 94-95: push \<open>NOT\<close> and its opening parenthesis.\<close>

definition push_not :: "ExpressionBuilder \<Rightarrow> string list \<Rightarrow> error + string list" where
  "push_not b e =
     ebind (index_of e (fst (eb_not_expr b))) (\<lambda>i.
       let e' = py_insert i ''NOT'' e in
       ebind (index_of e' ''NOT'') (\<lambda>k. Inr (py_insert (k + 1) ''('' e')))"

text \<open>Lines 97-114: recompute the indices and close the parenthesis of the NOT.\<close>

definition close_not :: "ExpressionBuilder \<Rightarrow> error + ExpressionBuilder" where
  "close_not b0 =
     ebind (generate_indices_of_variables b0) (\<lambda>par.
       let b = b0\<lparr>eb_parentheses := par\<rparr>; e = eb_expression b in
       if snd (eb_not_expr b) = 0 then
         ebind (dict_get par (fst (eb_not_expr b))) (\<lambda>v.
           ebind (index_of par (fst (eb_not_expr b), v)) (\<lambda>position.
             if position = int (length par) - 1 then Inr (b\<lparr>eb_expression := e @ ['')'']\<rparr>)
             else
               ebind (py_get par (position + 1)) (\<lambda>kv.
                 ebind (dict_get par (fst kv)) (\<lambda>r.
                   Inr (b\<lparr>eb_expression := py_insert (r + 1) '')'' e\<rparr>)))))
       else
         ebind (index_of e ''NOT'') (\<lambda>k.
           Inr (b\<lparr>eb_expression := py_insert (k + 3) '')'' e\<rparr>)))"

text \<open>One round of the loop of lines 116-124.\<close>

definition extra_group ::
  "ExpressionBuilder \<Rightarrow> nat list \<Rightarrow> error + (ExpressionBuilder \<times> nat list)" where
  "extra_group b rs =
     ebind (generate_indices_of_variables b) (\<lambda>par.
       ebind (dict_add par (fst (eb_not_expr b)) (- 2)) (\<lambda>par'.
         let b1 = b\<lparr>eb_parentheses := par'\<rparr> in
         ebind (generate_parentheses_positions par' rs) (\<lambda>((left_paren, right_paren), rs').
           ebind (insert_parentheses b1 left_paren right_paren) (\<lambda>b2. Inr (b2, rs')))))"

fun extra_groups ::
  "nat \<Rightarrow> ExpressionBuilder \<Rightarrow> nat list \<Rightarrow> error + (ExpressionBuilder \<times> nat list)" where
  "extra_groups 0 b rs = Inr (b, rs)"
| "extra_groups (Suc k) b rs = ebind (extra_group b rs) (\<lambda>(b', rs'). extra_groups k b' rs')"

text \<open>\<open>build\<close>; \<open>range(paren_count)\<close> is empty for a count below 1.\<close>

definition build :: "ExpressionBuilder \<Rightarrow> nat list \<Rightarrow> error + (ExpressionBuilder \<times> nat list)" where
  "build b rs =
     ebind (push_not b (insert_operators (eb_variables b) (eb_operators b))) (\<lambda>e.
       ebind (close_not (b\<lparr>eb_expression := e\<rparr>)) (\<lambda>b'.
         extra_groups (nat (eb_paren_count b')) b' rs))"

text \<open>\<open>__str__\<close>: the tokens joined by single spaces.\<close>

fun join_spaces :: "string list \<Rightarrow> string" where
  "join_spaces [] = []"
| "join_spaces [t] = t"
| "join_spaces (t # ts) = t @ '' '' @ join_spaces ts"

definition ExpressionBuilder_str :: "ExpressionBuilder \<Rightarrow> string" where
  "ExpressionBuilder_str b = join_spaces (eb_expression b)"

subsection \<open>Properties of a token sequence\<close>

text \<open>The running depth over the parentheses never goes negative and ends at zero.\<close>

fun depth_scan :: "int \<Rightarrow> string list \<Rightarrow> bool" where
  "depth_scan d [] = (d = 0)"
| "depth_scan d (t # ts) =
     (if t = ''('' then depth_scan (d + 1) ts
      else if t = '')'' then 0 \<le> d - 1 \<and> depth_scan (d - 1) ts
      else depth_scan d ts)"

definition balanced :: "string list \<Rightarrow> bool" where
  "balanced ts = depth_scan 0 ts"

text \<open>
  \<open>find_close d p ts\<close>: the index of the parenthesis that closes the group open at the
  start of \<open>ts\<close> (nested \<open>d\<close> deep inside it), \<open>p\<close> being the index of the head of \<open>ts\<close>.
\<close>

fun find_close :: "nat \<Rightarrow> nat \<Rightarrow> string list \<Rightarrow> nat option" where
  "find_close d p [] = None"
| "find_close d p (t # ts) =
     (if t = ''('' then find_close (Suc d) (Suc p) ts
      else if t = '')'' then (if d = 0 then Some p else find_close (d - 1) (Suc p) ts)
      else find_close d (Suc p) ts)"

text \<open>A group spans the whole sequence: \<open>(\<close> at index 0 is closed by \<open>)\<close> at the last index.\<close>

definition spans_whole :: "string list \<Rightarrow> bool" where
  "spans_whole ts =
     (case ts of [] \<Rightarrow> False
      | t # rest \<Rightarrow> t = ''('' \<and> find_close 0 1 rest = Some (length ts - 1))"


section \<open>Evaluator\<close>

text \<open>
  \<open>str.replace(old, new)\<close>: the occurrences of \<open>old\<close> are found from the left and do not
  overlap; an empty \<open>old\<close> matches before every character and at the end.
\<close>

function str_replace :: "string \<Rightarrow> string \<Rightarrow> string \<Rightarrow> string" where
  "str_replace old new s =
     (if old = [] then
        (case s of [] \<Rightarrow> new | c # cs \<Rightarrow> new @ c # str_replace old new cs)
      else if s = [] then []
      else if prefix old s then new @ str_replace old new (drop (length old) s)
      else hd s # str_replace old new (tl s))"
  by pat_completeness auto
termination
  by (relation "measure (\<lambda>(old, new, s). length s)") auto

declare str_replace.simps [simp del]

text \<open>A value stored in a row: the 0/1 of a variable, or the formatted result.\<close>

datatype cell = Bit int | Text string

record Evaluator =
  ev_expression :: string
  ev_expression_py :: string
  ev_variables :: "string list"
  ev_lines :: "(string \<times> cell) list list"

text \<open>\<open>Evaluator.__init__\<close>; \<open>ev_expression_py\<close> is the private \<open>self.__expression\<close>.\<close>

definition Evaluator_init :: "string \<Rightarrow> string list \<Rightarrow> Evaluator" where
  "Evaluator_init e vs =
     \<lparr>ev_expression = e,
      ev_expression_py =
        str_replace ''AND'' ''and'' (str_replace ''NOT'' ''not'' (str_replace ''OR'' ''or'' e)),
      ev_variables = sort vs,
      ev_lines = []\<rparr>"

text \<open>
  The host language: the builtin \<open>eval(text, globals)\<close> and the formatting
  \<open>"{1:^{0:d}}".format(width, value)\<close> are not code of this program; they are parameters.
  The globals map a name to an integer, or to \<open>None\<close> (the entry \<open>__builtins__\<close>).
\<close>

record 'v host =
  host_eval :: "string \<Rightarrow> (string \<times> int option) list \<Rightarrow> error + 'v"
  host_format :: "nat \<Rightarrow> 'v \<Rightarrow> error + string"

text \<open>Lines 25-27: the assignment of row \<open>i\<close>, one store per enumerated variable.\<close>

definition assign_row :: "string list \<Rightarrow> nat \<Rightarrow> (string \<times> int) list" where
  "assign_row vs i =
     fold (\<lambda>(j, var) row.
             dict_set row var (if int i AND push_bit (length vs - j - 1) 1 \<noteq> 0 then 1 else 0))
          (enumerate 0 vs) []"

text \<open>Lines 28-29: the copy of the row with \<open>__builtins__\<close> set to \<open>None\<close>.\<close>

definition row_globals :: "string list \<Rightarrow> nat \<Rightarrow> (string \<times> int option) list" where
  "row_globals vs i = dict_set (map (\<lambda>(k, v). (k, Some v)) (assign_row vs i)) ''__builtins__'' None"

text \<open>
  Lines 24-34 for one \<open>i\<close>. An exception leaves the row as it stands at the raise: the
  assignment without the result.
\<close>

definition eval_row ::
  "'v host \<Rightarrow> Evaluator \<Rightarrow> nat \<Rightarrow> (error \<times> (string \<times> cell) list) + (string \<times> cell) list" where
  "eval_row H ev i =
     (let row = map (\<lambda>(k, v). (k, Bit v)) (assign_row (ev_variables ev) i);
          globs = row_globals (ev_variables ev) i
      in case host_eval H (ev_expression_py ev) globs of
           Inl err \<Rightarrow> Inl (err, row)
         | Inr evaluated \<Rightarrow>
             (case host_format H (length (ev_expression ev)) evaluated of
                Inl err \<Rightarrow> Inl (err, row)
              | Inr s \<Rightarrow> Inr (dict_set row '' '' (Text s))))"

text \<open>
  The loop over \<open>range(2 ** n)\<close>. \<open>self.lines\<close> was emptied before the loop, so
  \<open>self.lines[i]\<close> is the row appended in this round. A raise returns the exception with
  the evaluator as the raise leaves it.
\<close>

fun eval_rows :: "'v host \<Rightarrow> Evaluator \<Rightarrow> nat list \<Rightarrow> (error \<times> Evaluator) + Evaluator" where
  "eval_rows H ev [] = Inr ev"
| "eval_rows H ev (i # is) =
     (case eval_row H ev i of
        Inl (err, row) \<Rightarrow> Inl (err, ev\<lparr>ev_lines := ev_lines ev @ [row]\<rparr>)
      | Inr row \<Rightarrow> eval_rows H (ev\<lparr>ev_lines := ev_lines ev @ [row]\<rparr>) is)"

definition eval :: "'v host \<Rightarrow> Evaluator \<Rightarrow> (error \<times> Evaluator) + Evaluator" where
  "eval H ev = eval_rows H (ev\<lparr>ev_lines := []\<rparr>) [0 ..< 2 ^ length (ev_variables ev)]"

text \<open>The evaluator as a call of \<open>eval\<close> leaves it, raised or not.\<close>

definition state_after :: "(error \<times> Evaluator) + Evaluator \<Rightarrow> Evaluator" where
  "state_after r = (case r of Inl (err, ev) \<Rightarrow> ev | Inr ev \<Rightarrow> ev)"

subsection \<open>A fragment of the host language\<close>

text \<open>
  Python's evaluation of the texts the generator writes: names, \<open>not\<close>, \<open>and\<close>, \<open>or\<close> and
  parentheses, separated by spaces. \<open>and\<close> and \<open>or\<close> evaluate their right operand only when
  the left one does not decide, and return the deciding operand; \<open>not\<close> returns a bool.
  A text outside the fragment is answered \<open>Inl NotModelled\<close>, which is no statement about
  Python; every other \<open>Inl\<close> is a raise of Python (SyntaxError for a text that does not
  parse, and, the builtins being \<open>None\<close>, NameError or TypeError for an unbound name).
\<close>

datatype pyval = PyInt int | PyBool bool

datatype pyerr = Raised | NotModelled

datatype token = TName string | TNot | TAnd | TOr | TLpar | TRpar

datatype bexp = Name string | Not bexp | And bexp bexp | Or bexp bexp

definition ident_char :: "char \<Rightarrow> bool" where
  "ident_char c = (c \<in> set ''abcdefghijklmnopqrstuvwxyzABCDEFGHIJKLMNOPQRSTUVWXYZ0123456789_'')"

definition py_keywords :: "string list" where
  "py_keywords = [''False'', ''None'', ''True'', ''as'', ''assert'', ''async'', ''await'',
     ''break'', ''class'', ''continue'', ''def'', ''del'', ''elif'', ''else'', ''except'',
     ''finally'', ''for'', ''from'', ''global'', ''if'', ''import'', ''in'', ''is'', ''lambda'',
     ''nonlocal'', ''pass'', ''raise'', ''return'', ''try'', ''while'', ''with'', ''yield'']"

definition word_token :: "string \<Rightarrow> pyerr + token" where
  "word_token w =
     (if w = ''not'' then Inr TNot
      else if w = ''and'' then Inr TAnd
      else if w = ''or'' then Inr TOr
      else if w \<in> set py_keywords \<or> hd w \<in> set ''0123456789'' then Inl NotModelled
      else Inr (TName w))"

text \<open>\<open>lex w s\<close>: \<open>w\<close> is the word read so far, reversed.\<close>

fun lex :: "string \<Rightarrow> string \<Rightarrow> pyerr + token list" where
  "lex w [] = (if w = [] then Inr [] else map_sum id (\<lambda>t. [t]) (word_token (rev w)))"
| "lex w (c # cs) =
     (if ident_char c then lex (c # w) cs
      else if c = CHR '' '' \<or> c = CHR ''('' \<or> c = CHR '')'' then
        (case (if w = [] then Inr [] else map_sum id (\<lambda>t. [t]) (word_token (rev w))) of
           Inl e \<Rightarrow> Inl e
         | Inr pre \<Rightarrow>
             (case lex [] cs of
                Inl e \<Rightarrow> Inl e
              | Inr ts \<Rightarrow>
                  Inr (pre @ (if c = CHR ''('' then [TLpar] else if c = CHR '')'' then [TRpar] else [])
                       @ ts)))
      else Inl NotModelled)"

text \<open>
  Operator-precedence parsing (\<open>not\<close> binds tighter than \<open>and\<close>, \<open>and\<close> tighter than \<open>or\<close>)
  with a stack of pending operators and a stack of finished operands.
\<close>

datatype pending = PNot | PAnd | POr | PLpar

fun prec :: "pending \<Rightarrow> nat" where
  "prec PNot = 3" | "prec PAnd = 2" | "prec POr = 1" | "prec PLpar = 0"

text \<open>Apply the pending operators that bind at least as tightly as \<open>p\<close>.\<close>

fun reduce :: "nat \<Rightarrow> pending list \<Rightarrow> bexp list \<Rightarrow> (pending list \<times> bexp list) option" where
  "reduce p [] out = Some ([], out)"
| "reduce p (PLpar # ops) out = Some (PLpar # ops, out)"
| "reduce p (PNot # ops) out =
     (if prec PNot < p then Some (PNot # ops, out)
      else case out of a # out' \<Rightarrow> reduce p ops (Not a # out') | _ \<Rightarrow> None)"
| "reduce p (PAnd # ops) out =
     (if prec PAnd < p then Some (PAnd # ops, out)
      else case out of b # a # out' \<Rightarrow> reduce p ops (And a b # out') | _ \<Rightarrow> None)"
| "reduce p (POr # ops) out =
     (if prec POr < p then Some (POr # ops, out)
      else case out of b # a # out' \<Rightarrow> reduce p ops (Or a b # out') | _ \<Rightarrow> None)"

text \<open>
  \<open>parse ops out operand ts\<close>: \<open>operand\<close> says that an operand must come next. A name
  followed by \<open>(\<close> is a call and \<open>( )\<close> is a tuple: both are outside the fragment.
\<close>

fun parse :: "pending list \<Rightarrow> bexp list \<Rightarrow> bool \<Rightarrow> token list \<Rightarrow> pyerr + bexp" where
  "parse ops out operand [] =
     (if operand then Inl Raised
      else case reduce 1 ops out of
             Some ([], [a]) \<Rightarrow> Inr a
           | _ \<Rightarrow> Inl Raised)"
| "parse ops out operand (TName x # ts) =
     (if operand then parse ops (Name x # out) False ts else Inl Raised)"
| "parse ops out operand (TNot # ts) =
     (if operand then parse (PNot # ops) out True ts else Inl NotModelled)"
| "parse ops out operand (TLpar # ts) =
     (if operand then
        (case ts of TRpar # _ \<Rightarrow> Inl NotModelled | _ \<Rightarrow> parse (PLpar # ops) out True ts)
      else Inl NotModelled)"
| "parse ops out operand (TRpar # ts) =
     (if operand then Inl Raised
      else case reduce 1 ops out of
             Some (PLpar # ops', out') \<Rightarrow> parse ops' out' False ts
           | _ \<Rightarrow> Inl Raised)"
| "parse ops out operand (TAnd # ts) =
     (if operand then Inl Raised
      else case reduce 2 ops out of
             Some (ops', out') \<Rightarrow> parse (PAnd # ops') out' True ts
           | None \<Rightarrow> Inl Raised)"
| "parse ops out operand (TOr # ts) =
     (if operand then Inl Raised
      else case reduce 1 ops out of
             Some (ops', out') \<Rightarrow> parse (POr # ops') out' True ts
           | None \<Rightarrow> Inl Raised)"

fun truthy :: "pyval \<Rightarrow> bool" where
  "truthy (PyInt n) = (n \<noteq> 0)"
| "truthy (PyBool b) = b"

fun bexp_eval :: "(string \<times> int option) list \<Rightarrow> bexp \<Rightarrow> pyerr + pyval" where
  "bexp_eval g (Name x) =
     (case map_of g x of
        None \<Rightarrow> Inl Raised
      | Some None \<Rightarrow> Inl NotModelled
      | Some (Some n) \<Rightarrow> Inr (PyInt n))"
| "bexp_eval g (Not a) =
     (case bexp_eval g a of Inl e \<Rightarrow> Inl e | Inr v \<Rightarrow> Inr (PyBool (\<not> truthy v)))"
| "bexp_eval g (And a b) =
     (case bexp_eval g a of Inl e \<Rightarrow> Inl e
      | Inr v \<Rightarrow> if truthy v then bexp_eval g b else Inr v)"
| "bexp_eval g (Or a b) =
     (case bexp_eval g a of Inl e \<Rightarrow> Inl e
      | Inr v \<Rightarrow> if truthy v then Inr v else bexp_eval g b)"

definition py_eval :: "string \<Rightarrow> (string \<times> int option) list \<Rightarrow> pyerr + pyval" where
  "py_eval text g =
     (case lex [] text of
        Inl e \<Rightarrow> Inl e
      | Inr ts \<Rightarrow> (case parse [] [] True ts of Inl e \<Rightarrow> Inl e | Inr a \<Rightarrow> bexp_eval g a))"

text \<open>
  The format \<open>^width\<close> of an int or a bool: the decimal digits (a bool as 1 or 0), centred,
  the odd space to the right.
\<close>

function dec_digits :: "nat \<Rightarrow> string" where
  "dec_digits n =
     (if n < 10 then [''0123456789'' ! n]
      else dec_digits (n div 10) @ [''0123456789'' ! (n mod 10)])"
  by pat_completeness auto
termination
  by (relation "measure id") auto

declare dec_digits.simps [simp del]

definition py_str_int :: "int \<Rightarrow> string" where
  "py_str_int n = (if n < 0 then CHR ''-'' # dec_digits (nat (- n)) else dec_digits (nat n))"

definition py_format :: "nat \<Rightarrow> pyval \<Rightarrow> string" where
  "py_format width v =
     (let s = py_str_int (case v of PyInt n \<Rightarrow> n | PyBool b \<Rightarrow> (if b then 1 else 0));
          pad = width - length s
      in replicate (pad div 2) CHR '' '' @ s @ replicate (pad - pad div 2) CHR '' '')"

text \<open>The fragment as a host. Both kinds of \<open>Inl\<close> are passed on as \<open>EvalError\<close>.\<close>

definition python :: "pyval host" where
  "python =
     \<lparr>host_eval = (\<lambda>text g. case py_eval text g of Inl e \<Rightarrow> Inl EvalError | Inr v \<Rightarrow> Inr v),
      host_format = (\<lambda>width v. Inr (py_format width v))\<rparr>"

section \<open>Notions for the proofs about the generator\<close>

text \<open>
  The names that the data model of the generator allows: the variables are distinct, the
  operators are \<open>AND\<close> and \<open>OR\<close>, and no variable is written like an operator, like \<open>NOT\<close>
  or like a parenthesis.
\<close>

definition valid_names :: "string list \<Rightarrow> string list \<Rightarrow> bool" where
  "valid_names vs ops \<longleftrightarrow>
     distinct vs \<and> set ops \<subseteq> {''AND'', ''OR''}
     \<and> set vs \<inter> {''AND'', ''OR'', ''NOT'', ''('', '')''} = {}"

text \<open>\<open>ix e v\<close> is \<open>e.index(v)\<close> where \<open>v\<close> occurs in \<open>e\<close>.\<close>

definition ix :: "'a list \<Rightarrow> 'a \<Rightarrow> nat" where
  "ix e v = (case py_index e v of None \<Rightarrow> 0 | Some i \<Rightarrow> i)"

text \<open>The dictionary over the keys \<open>ks\<close>, in this order, with the values \<open>f\<close>.\<close>

definition dictf :: "('k \<Rightarrow> 'v) \<Rightarrow> 'k list \<Rightarrow> ('k \<times> 'v) list" where
  "dictf f ks = map (\<lambda>k. (k, f k)) ks"

text \<open>
  The invariant of \<open>build\<close> once the NOT is closed: the variables stand in \<open>e\<close> in the
  order \<open>vs\<close>, each once; the parentheses are balanced; \<open>NOT\<close> occurs once, followed by \<open>(\<close>
  and the negated variable.
\<close>

definition well_formed :: "string list \<Rightarrow> string \<Rightarrow> string list \<Rightarrow> bool" where
  "well_formed vs nv e \<longleftrightarrow>
     filter (\<lambda>t. t \<in> set vs) e = vs \<and> balanced e \<and>
     (\<exists>pre post. e = pre @ ''NOT'' # ''('' # nv # post
        \<and> ''NOT'' \<notin> set pre \<and> ''NOT'' \<notin> set post \<and> nv \<notin> set pre)"

text \<open>
  The backbone in closed form: the variables and the operators taken in turn, which is
  what the insertions of \<open>insert_operators\<close> at the indices 1, 3, 5, ... produce.
\<close>

fun interleave :: "'a list \<Rightarrow> 'a list \<Rightarrow> 'a list" where
  "interleave (v # vs) (p # ps) = v # p # interleave vs ps"
| "interleave vs [] = vs"
| "interleave [] ps = ps"

section \<open>Basic facts about the primitives\<close>

lemma ebind_simps [simp]: "ebind (Inl e) f = Inl e" "ebind (Inr x) f = f x"
  by (simp_all add: ebind_def)

lemma randbelow_less: "0 < n \<Longrightarrow> fst (randbelow n rs) < n"
  by (cases rs) (simp_all add: randbelow_def)

lemma shuffle_loop_mset:
  "k < length xs \<Longrightarrow> mset (fst (shuffle_loop k xs rs)) = mset xs"
proof (induction k arbitrary: xs rs)
  case 0
  then show ?case by simp
next
  case (Suc k)
  obtain j rs' where r: "randbelow (Suc (Suc k)) rs = (j, rs')"
    by (cases "randbelow (Suc (Suc k)) rs")
  have "j < Suc (Suc k)"
    using randbelow_less [of "Suc (Suc k)" rs] r by simp
  with Suc.prems have j: "j < length xs" by simp
  let ?ys = "xs[Suc k := xs ! j, j := xs ! Suc k]"
  have m: "mset ?ys = mset xs"
    using mset_swap [OF j Suc.prems] .
  have "k < length ?ys" using Suc.prems by simp
  from Suc.IH [OF this] m r show ?case by simp
qed

lemma random_shuffle_mset: "mset (fst (random_shuffle xs rs)) = mset xs"
proof (cases xs)
  case Nil
  then show ?thesis by (simp add: random_shuffle_def)
next
  case (Cons x xs')
  then show ?thesis by (simp add: random_shuffle_def shuffle_loop_mset)
qed

lemma sort_shuffle: "sort (fst (random_shuffle xs rs)) = sort (xs :: string list)"
  by (rule properties_for_sort) (simp_all add: random_shuffle_mset)

lemma random_choice_ok: "xs \<noteq> [] \<Longrightarrow> \<exists>x rs'. random_choice xs rs = Inr (x, rs') \<and> x \<in> set xs"
  using randbelow_less [of "length xs" rs]
  by (cases "randbelow (length xs) rs") (auto simp: random_choice_def)

lemma state_after_simps [simp]:
  "state_after (Inl (err, ev)) = ev" "state_after (Inr ev) = ev"
  by (simp_all add: state_after_def)

lemma eval_rows_fields:
  "ev_expression (state_after (eval_rows H ev js)) = ev_expression ev
   \<and> ev_expression_py (state_after (eval_rows H ev js)) = ev_expression_py ev
   \<and> ev_variables (state_after (eval_rows H ev js)) = ev_variables ev"
proof (induction js arbitrary: ev)
  case Nil
  show ?case by simp
next
  case (Cons i js)
  show ?case
  proof (cases "eval_row H ev i")
    case (Inl p)
    then show ?thesis by (cases p) simp
  next
    case (Inr row)
    then show ?thesis
      using Cons.IH [of "ev\<lparr>ev_lines := ev_lines ev @ [row]\<rparr>"] by simp
  qed
qed

lemma eval_reset:
  assumes "ev_expression a = ev_expression b" "ev_expression_py a = ev_expression_py b"
    "ev_variables a = ev_variables b"
  shows "eval H a = eval H b"
proof -
  have eq: "a\<lparr>ev_lines := []\<rparr> = b\<lparr>ev_lines := []\<rparr>"
    using assms by (intro Evaluator.equality) simp_all
  show ?thesis
    unfolding eval_def eq assms(3) ..
qed

section \<open>The constructor of the generator\<close>

text \<open>
  Claim C7. \<open>ExpressionBuilder.__init__\<close> raises (its assertion fails) when the number of
  operators differs from the number of variables minus one, the lengths compared as Python
  integers; when they agree the construction returns a builder. The constructor is a
  function of its arguments and of the random draws, and the assertion is checked before
  any draw, so a failed construction consumes nothing.
\<close>

theorem init_arity:
  "(int (length ops) \<noteq> int (length vs) - 1 \<longrightarrow>
      ExpressionBuilder_init vs ops pc rs = Inl AssertionError)
   \<and> (int (length ops) = int (length vs) - 1 \<longrightarrow>
      (\<exists>b rs'. ExpressionBuilder_init vs ops pc rs = Inr (b, rs')))"
proof (intro conjI impI)
  assume "int (length ops) \<noteq> int (length vs) - 1"
  then show "ExpressionBuilder_init vs ops pc rs = Inl AssertionError"
    by (simp add: ExpressionBuilder_init_def)
next
  assume a: "int (length ops) = int (length vs) - 1"
  obtain vs' rs1 where v: "generate_variables_order vs rs = (vs', rs1)"
    by (cases "generate_variables_order vs rs")
  obtain ops' rs2 where p: "generate_operator_order ops rs1 = (ops', rs2)"
    by (cases "generate_operator_order ops rs1")
  have "mset vs' = mset vs"
    using v random_shuffle_mset [of vs rs] by (simp add: generate_variables_order_def)
  then have "length vs' = length vs" by (metis size_mset)
  with a have "vs' \<noteq> []" by auto
  from random_choice_ok [OF this, of rs2]
  obtain x rs3 where c: "random_choice vs' rs2 = Inr (x, rs3)" by blast
  obtain q rs4 where q: "random_randint 0 1 rs3 = (q, rs4)"
    by (cases "random_randint 0 1 rs3")
  show "\<exists>b rs'. ExpressionBuilder_init vs ops pc rs = Inr (b, rs')"
    using a v p c q by (simp add: ExpressionBuilder_init_def generate_not_subexpression_def)
qed

theorem init_arity_witness:
  "(int (length [''AND'']) \<noteq> int (length [''A'']) - 1
      \<and> ExpressionBuilder_init [''A''] [''AND''] 1 [] = Inl AssertionError)
   \<and> (int (length [''AND'']) = int (length [''A'', ''B'']) - 1
      \<and> (\<exists>b rs'. ExpressionBuilder_init [''A'', ''B''] [''AND''] 1 [] = Inr (b, rs')))"
  using init_arity [of "[''AND'']" "[''A'']" 1 "[]"]
    init_arity [of "[''AND'']" "[''A'', ''B'']" 1 "[]"]
  by simp

section \<open>The variable list of the evaluator\<close>

text \<open>
  Claim C5. The evaluator keeps the supplied names in ascending order: its variable list
  is the sorted list of the names it was given, and it is the same list, \<open>sort vs\<close>,
  whatever order the generator's shuffle has put the names in.
\<close>

theorem evaluator_variables_sorted:
  "ev_variables (Evaluator_init e vs) = sort vs
   \<and> sorted (ev_variables (Evaluator_init e vs))
   \<and> mset (ev_variables (Evaluator_init e vs)) = mset vs
   \<and> ev_variables (Evaluator_init e (fst (generate_variables_order vs rs))) = sort vs"
  by (simp add: Evaluator_init_def generate_variables_order_def sort_shuffle)

section \<open>Repeated evaluation\<close>

text \<open>
  Claim C9. \<open>eval\<close> is a function of the expression text, the variable list and the host;
  it empties the rows first. Calling it again on the evaluator that a first call has left
  (whether that call returned or raised) gives the same outcome and the same rows.
\<close>

theorem eval_idempotent: "eval H (state_after (eval H ev)) = eval H ev"
proof (rule eval_reset)
  show "ev_expression (state_after (eval H ev)) = ev_expression ev"
    unfolding eval_def using eval_rows_fields [of H "ev\<lparr>ev_lines := []\<rparr>"] by simp
  show "ev_expression_py (state_after (eval H ev)) = ev_expression_py ev"
    unfolding eval_def using eval_rows_fields [of H "ev\<lparr>ev_lines := []\<rparr>"] by simp
  show "ev_variables (state_after (eval H ev)) = ev_variables ev"
    unfolding eval_def using eval_rows_fields [of H "ev\<lparr>ev_lines := []\<rparr>"] by simp
qed


section \<open>Runs of the generator\<close>

text \<open>
  Claim C1: for every variable list with one operator fewer, the single variable with no
  operator included, and every number of extra groups, \<open>build\<close> completes and leaves
  balanced parentheses. The single variable passes the assertion of the constructor, but
  \<open>build\<close> with one extra group then raises IndexError: \<open>random.choice\<close> is called on the
  empty list of candidates for the left variable.
\<close>

theorem build_single_variable_raises:
  "ExpressionBuilder_init [''A''] [] 1 [] =
     Inr (\<lparr>eb_paren_count = 1, eb_variables = [''A''], eb_operators = [],
           eb_not_expr = (''A'', 0), eb_parentheses = [], eb_expression = []\<rparr>, [])
   \<and> build \<lparr>eb_paren_count = 1, eb_variables = [''A''], eb_operators = [],
            eb_not_expr = (''A'', 0), eb_parentheses = [], eb_expression = []\<rparr> []
       = Inl IndexError"
  by code_simp

text \<open>
  Claim C2: no parenthesis group of a built expression spans the whole token sequence.
  With the variables A, B, C in this order, NOT on B with low precedence and one extra
  group whose left variable is drawn as A, the tokens after the NOT are
  \<open>A AND NOT ( B OR C )\<close>; the right end of the group lands after B, inside the
  parentheses of the NOT, and the result \<open>( A AND NOT ( B ) OR C )\<close> has its first
  parenthesis closed by its last token. The test that skips a group around the whole
  expression compares the right end with the last index and does not see this.
\<close>

theorem build_group_spans_whole:
  "ExpressionBuilder_init [''A'', ''B'', ''C''] [''AND'', ''OR''] 1 [2, 1, 1, 1, 0, 0] =
     Inr (\<lparr>eb_paren_count = 1, eb_variables = [''A'', ''B'', ''C''],
           eb_operators = [''AND'', ''OR''], eb_not_expr = (''B'', 0),
           eb_parentheses = [], eb_expression = []\<rparr>, [0])
   \<and> build \<lparr>eb_paren_count = 1, eb_variables = [''A'', ''B'', ''C''],
             eb_operators = [''AND'', ''OR''], eb_not_expr = (''B'', 0),
             eb_parentheses = [], eb_expression = []\<rparr> [0] =
     Inr (\<lparr>eb_paren_count = 1, eb_variables = [''A'', ''B'', ''C''],
           eb_operators = [''AND'', ''OR''], eb_not_expr = (''B'', 0),
           eb_parentheses = [(''A'', 0), (''B'', 5), (''C'', 6)],
           eb_expression =
             [''('', ''A'', ''AND'', ''NOT'', ''('', ''B'', '')'', ''OR'', ''C'', '')'']\<rparr>, [])
   \<and> spans_whole [''('', ''A'', ''AND'', ''NOT'', ''('', ''B'', '')'', ''OR'', ''C'', '')'']"
  by code_simp

section \<open>The rows of the evaluator\<close>

lemma map_of_dict_set: "map_of (dict_set d k v) = (map_of d)(k \<mapsto> v)"
  by (induction d) auto

lemma eval_row_lines [simp]: "eval_row H (ev\<lparr>ev_lines := l\<rparr>) i = eval_row H ev i"
  by (simp add: eval_row_def Let_def split: sum.splits)

lemma eval_rows_ok:
  "\<forall>i \<in> set js. \<not> isl (eval_row H ev i) \<Longrightarrow>
   eval_rows H ev js = Inr (ev\<lparr>ev_lines := ev_lines ev @ map (\<lambda>i. projr (eval_row H ev i)) js\<rparr>)"
proof (induction js arbitrary: ev)
  case Nil
  show ?case by simp
next
  case (Cons i js)
  from Cons.prems obtain row where r: "eval_row H ev i = Inr row"
    by (cases "eval_row H ev i") auto
  let ?ev = "ev\<lparr>ev_lines := ev_lines ev @ [row]\<rparr>"
  have "\<forall>k \<in> set js. \<not> isl (eval_row H ?ev k)"
    using Cons.prems by simp
  from Cons.IH [OF this] r show ?case by simp
qed

lemma eval_rows_isl:
  "isl (eval_rows H ev js) \<longleftrightarrow> (\<exists>i \<in> set js. isl (eval_row H ev i))"
proof (induction js arbitrary: ev)
  case Nil
  show ?case by simp
next
  case (Cons i js)
  show ?case
  proof (cases "eval_row H ev i")
    case (Inl p)
    then show ?thesis by (cases p) simp
  next
    case (Inr row)
    then show ?thesis
      using Cons.IH [of "ev\<lparr>ev_lines := ev_lines ev @ [row]\<rparr>"] by simp
  qed
qed

lemma eval_row_isl:
  "isl (eval_row H ev i) \<longleftrightarrow>
     (case host_eval H (ev_expression_py ev) (row_globals (ev_variables ev) i) of
        Inl e \<Rightarrow> True
      | Inr v \<Rightarrow> isl (host_format H (length (ev_expression ev)) v))"
  by (simp add: eval_row_def Let_def split: sum.splits)

text \<open>The stores of one row: a later store under the same name wins.\<close>

lemma fold_store_other:
  "key \<notin> set xs \<Longrightarrow>
   map_of (fold (\<lambda>(j, var) row. dict_set row var (g j)) (enumerate k xs) acc) key = map_of acc key"
  by (induction xs arbitrary: k acc) (simp_all add: map_of_dict_set)

lemma fold_store_nth:
  "distinct xs \<Longrightarrow> j < length xs \<Longrightarrow>
   map_of (fold (\<lambda>(j, var) row. dict_set row var (g j)) (enumerate k xs) acc) (xs ! j)
     = Some (g (k + j))"
proof (induction xs arbitrary: k acc j)
  case Nil
  then show ?case by simp
next
  case (Cons x xs)
  show ?case
  proof (cases j)
    case 0
    with Cons.prems show ?thesis
      by (simp add: fold_store_other map_of_dict_set)
  next
    case (Suc j')
    with Cons.prems Cons.IH [of j' "Suc k" "dict_set acc x (g k)"] show ?thesis
      by simp
  qed
qed

lemma bit_test: "(int i AND push_bit m 1 \<noteq> 0) = bit i m"
  by (simp add: bit_iff_and_push_bit_not_eq_0 [symmetric, of "int i" m] bit_of_nat_iff_bit del: push_bit_of_1)

lemma assign_row_nth:
  assumes "distinct vs" "j < length vs"
  shows "map_of (assign_row vs i) (vs ! j) = Some (if bit i (length vs - j - 1) then 1 else 0)"
  unfolding assign_row_def bit_test
  using fold_store_nth [OF assms, of "\<lambda>j. if bit i (length vs - j - 1) then 1 else 0" 0 "[]"]
  by simp

lemma map_of_cells: "map_of (map (\<lambda>(k, v). (k, Bit v)) a) key = map_option Bit (map_of a key)"
  by (induction a) auto

lemma eval_row_nth:
  assumes "distinct (ev_variables ev)" "j < length (ev_variables ev)"
    "'' '' \<notin> set (ev_variables ev)" "\<not> isl (eval_row H ev i)"
  shows "map_of (projr (eval_row H ev i)) (ev_variables ev ! j)
     = Some (Bit (if bit i (length (ev_variables ev) - j - 1) then 1 else 0))"
proof -
  have ne: "ev_variables ev ! j \<noteq> '' ''"
    using assms(2,3) by (metis nth_mem)
  obtain v where v: "host_eval H (ev_expression_py ev) (row_globals (ev_variables ev) i) = Inr v"
    using assms(4) unfolding eval_row_isl
    by (cases "host_eval H (ev_expression_py ev) (row_globals (ev_variables ev) i)") simp_all
  obtain s where "host_format H (length (ev_expression ev)) v = Inr s"
    using assms(4) v unfolding eval_row_isl
    by (cases "host_format H (length (ev_expression ev)) v") simp_all
  with v have "eval_row H ev i =
      Inr (dict_set (map (\<lambda>(k, v). (k, Bit v)) (assign_row (ev_variables ev) i)) '' '' (Text s))"
    by (simp add: eval_row_def)
  then show ?thesis
    using ne assign_row_nth [OF assms(1,2), of i]
    by (simp add: map_of_dict_set map_of_cells)
qed

text \<open>
  Claim C3, as the code has it. For \<open>n\<close> distinct variable names, none of them the key
  \<open>' '\<close> under which the result is stored, and a text that the host evaluates and formats
  under each of the \<open>2 ^ n\<close> assignments, \<open>eval\<close> returns with exactly \<open>2 ^ n\<close> rows, and
  row \<open>i\<close> gives the variable at sorted position \<open>j\<close> the value 1 exactly when bit
  \<open>n - j - 1\<close> of \<open>i\<close> is set: rows in increasing \<open>i\<close>, the first-sorted variable the most
  significant bit.
\<close>

theorem eval_rows_binary_order:
  assumes "distinct vs" and "'' '' \<notin> set vs"
    and "\<forall>i < 2 ^ length vs. \<exists>v s.
           host_eval H (ev_expression_py (Evaluator_init text vs)) (row_globals (sort vs) i) = Inr v
           \<and> host_format H (length text) v = Inr s"
  shows "\<exists>ev'. eval H (Evaluator_init text vs) = Inr ev'
     \<and> length (ev_lines ev') = 2 ^ length vs
     \<and> (\<forall>i < 2 ^ length vs. \<forall>j < length vs.
          map_of (ev_lines ev' ! i) (sort vs ! j)
            = Some (Bit (if bit i (length vs - j - 1) then 1 else 0)))"
proof -
  let ?ev = "Evaluator_init text vs"
  let ?n = "length vs"
  have f: "ev_variables ?ev = sort vs" "ev_expression ?ev = text" "ev_lines ?ev = []"
    by (simp_all add: Evaluator_init_def)
  have ok: "\<not> isl (eval_row H ?ev i)" if "i < 2 ^ ?n" for i
    using assms(3) that unfolding eval_row_isl f by (auto split: sum.splits)
  then have all: "\<forall>i \<in> set [0 ..< 2 ^ ?n]. \<not> isl (eval_row H (?ev\<lparr>ev_lines := []\<rparr>) i)"
    by simp
  let ?rows = "map (\<lambda>i. projr (eval_row H ?ev i)) [0 ..< 2 ^ ?n]"
  have e: "eval H ?ev = Inr (?ev\<lparr>ev_lines := ?rows\<rparr>)"
    unfolding eval_def f using eval_rows_ok [OF all] by simp
  have d: "distinct (ev_variables ?ev)" "'' '' \<notin> set (ev_variables ?ev)"
    using assms(1,2) by (simp_all add: f)
  have "map_of (?rows ! i) (sort vs ! j) = Some (Bit (if bit i (?n - j - 1) then 1 else 0))"
    if "i < 2 ^ ?n" "j < ?n" for i j
    using eval_row_nth [OF d(1) _ d(2) ok [OF that(1)], of j] that by (simp add: f)
  with e show ?thesis by simp
qed

theorem eval_rows_binary_order_witness:
  "distinct [''B'', ''A''] \<and> '' '' \<notin> set [''B'', ''A'']
   \<and> (\<exists>ev'. eval python (Evaluator_init ''A AND B'' [''B'', ''A'']) = Inr ev'
        \<and> length (ev_lines ev') = 4
        \<and> map_of (ev_lines ev' ! 1) ''A'' = Some (Bit 0)
        \<and> map_of (ev_lines ev' ! 1) ''B'' = Some (Bit 1)
        \<and> map_of (ev_lines ev' ! 2) ''A'' = Some (Bit 1)
        \<and> map_of (ev_lines ev' ! 2) ''B'' = Some (Bit 0))"
proof -
  let ?text = "''A AND B''" and ?vs = "[''B'', ''A'']"
  let ?py = "ev_expression_py (Evaluator_init ?text ?vs)"
  have h1: "distinct ?vs" and h2: "'' '' \<notin> set ?vs" by simp_all
  have e: "host_eval python ?py (row_globals (sort ?vs) 0) = Inr (PyInt 0)"
    "host_eval python ?py (row_globals (sort ?vs) 1) = Inr (PyInt 0)"
    "host_eval python ?py (row_globals (sort ?vs) 2) = Inr (PyInt 0)"
    "host_eval python ?py (row_globals (sort ?vs) 3) = Inr (PyInt 1)"
    by code_simp+
  have f: "host_format python (length ?text) (PyInt 0) = Inr ''   0   ''"
    "host_format python (length ?text) (PyInt 1) = Inr ''   1   ''"
    by code_simp+
  have n: "2 ^ length ?vs = (4::nat)" by simp
  have h3: "\<forall>i < 2 ^ length ?vs. \<exists>v s.
      host_eval python ?py (row_globals (sort ?vs) i) = Inr v
      \<and> host_format python (length ?text) v = Inr s"
  proof (intro allI impI)
    fix i :: nat
    assume "i < 2 ^ length ?vs"
    then have "i = 0 \<or> i = 1 \<or> i = 2 \<or> i = 3" unfolding n by arith
    then show "\<exists>v s.
      host_eval python ?py (row_globals (sort ?vs) i) = Inr v
      \<and> host_format python (length ?text) v = Inr s"
      using e f by blast
  qed
  have s: "sort ?vs ! 0 = ''A''" "sort ?vs ! 1 = ''B''" by code_simp+
  have b: "\<not> bit (1::nat) (length ?vs - 0 - 1)" "bit (1::nat) (length ?vs - 1 - 1)"
    "bit (2::nat) (length ?vs - 0 - 1)" "\<not> bit (2::nat) (length ?vs - 1 - 1)"
    by (simp_all add: bit_0 bit_Suc)
  from eval_rows_binary_order [OF h1 h2 h3]
  obtain ev' where ev: "eval python (Evaluator_init ?text ?vs) = Inr ev'"
    "length (ev_lines ev') = 2 ^ length ?vs"
    and r: "\<forall>i < 2 ^ length ?vs. \<forall>j < length ?vs.
       map_of (ev_lines ev' ! i) (sort ?vs ! j) = Some (Bit (if bit i (length ?vs - j - 1) then 1 else 0))"
    by blast
  have lt: "(1::nat) < 2 ^ length ?vs" "(2::nat) < 2 ^ length ?vs"
    "(0::nat) < length ?vs" "(1::nat) < length ?vs"
    by simp_all
  have "map_of (ev_lines ev' ! 1) (sort ?vs ! 0) = Some (Bit 0)"
    using r [rule_format, OF lt(1) lt(3)] b(1) by (simp only: if_False)
  moreover have "map_of (ev_lines ev' ! 1) (sort ?vs ! 1) = Some (Bit 1)"
    using r [rule_format, OF lt(1) lt(4)] b(2) by (simp only: if_True)
  moreover have "map_of (ev_lines ev' ! 2) (sort ?vs ! 0) = Some (Bit 1)"
    using r [rule_format, OF lt(2) lt(3)] b(3) by (simp only: if_True)
  moreover have "map_of (ev_lines ev' ! 2) (sort ?vs ! 1) = Some (Bit 0)"
    using r [rule_format, OF lt(2) lt(4)] b(4) by (simp only: if_False)
  ultimately have "map_of (ev_lines ev' ! 1) ''A'' = Some (Bit 0)"
    "map_of (ev_lines ev' ! 1) ''B'' = Some (Bit 1)"
    "map_of (ev_lines ev' ! 2) ''A'' = Some (Bit 1)"
    "map_of (ev_lines ev' ! 2) ''B'' = Some (Bit 0)"
    unfolding s by blast+
  with ev n h1 h2 show ?thesis by auto
qed

text \<open>
  The claim is made for every expression text and every variable list. The text \<open>(\<close> does
  not parse: the first evaluation raises, and \<open>eval\<close> leaves one row without a result
  instead of two rows. And a name listed twice has one entry in a row, stored last for
  its last position: over \<open>A, A\<close> row 1 assigns 1 to \<open>A\<close>, which stands at sorted position 0,
  although bit 1 of 1 is not set.
\<close>

theorem eval_unparsable_text_raises:
  "eval python (Evaluator_init ''('' [''A'']) =
     Inl (EvalError, \<lparr>ev_expression = ''('', ev_expression_py = ''('',
                      ev_variables = [''A''], ev_lines = [[(''A'', Bit 0)]]\<rparr>)
   \<and> py_eval ''('' [(''A'', Some 0), (''__builtins__'', None)] = Inl Raised
   \<and> eval python (Evaluator_init ''A'' [''A'', ''A'']) =
     Inr \<lparr>ev_expression = ''A'', ev_expression_py = ''A'', ev_variables = [''A'', ''A''],
          ev_lines = [[(''A'', Bit 0), ('' '', Text ''0'')], [(''A'', Bit 1), ('' '', Text ''1'')],
                      [(''A'', Bit 0), ('' '', Text ''0'')], [(''A'', Bit 1), ('' '', Text ''1'')]]\<rparr>
   \<and> \<not> bit (1 :: nat) (2 - 0 - 1)"
  by code_simp

section \<open>When the evaluator raises\<close>

text \<open>
  What a raising row leaves, and the run of the loop up to the first raising row.
\<close>

lemma eval_row_partial:
  "isl (eval_row H ev i) \<Longrightarrow>
   snd (projl (eval_row H ev i)) = map (\<lambda>(k, v). (k, Bit v)) (assign_row (ev_variables ev) i)"
  by (auto simp: eval_row_def Let_def split: sum.splits)

lemma eval_rows_first:
  "\<forall>i \<in> set pre. \<not> isl (eval_row H ev i) \<Longrightarrow> isl (eval_row H ev i0) \<Longrightarrow>
   eval_rows H ev (pre @ i0 # post) =
     Inl (fst (projl (eval_row H ev i0)),
          ev\<lparr>ev_lines := ev_lines ev @ map (\<lambda>i. projr (eval_row H ev i)) pre
                           @ [snd (projl (eval_row H ev i0))]\<rparr>)"
proof (induction pre arbitrary: ev)
  case Nil
  then obtain p where "eval_row H ev i0 = Inl p" by (cases "eval_row H ev i0") auto
  then show ?case by (cases p) simp
next
  case (Cons i pre)
  from Cons.prems(1) obtain row where r: "eval_row H ev i = Inr row"
    by (cases "eval_row H ev i") auto
  let ?ev = "ev\<lparr>ev_lines := ev_lines ev @ [row]\<rparr>"
  have "\<forall>k \<in> set pre. \<not> isl (eval_row H ?ev k)" "isl (eval_row H ?ev i0)"
    using Cons.prems by simp_all
  from Cons.IH [OF this] r show ?case by simp
qed

text \<open>
  Claim C8, as the code has it. \<open>eval\<close> raises exactly when, under at least one of the
  \<open>2 ^ n\<close> assignments, the host raises on evaluating the rewritten text or on formatting
  its value; no token is compared with the variable list. When row \<open>i0\<close> is the first row
  that raises, \<open>eval\<close> raises the exception of that row and no later row is evaluated: it
  leaves the \<open>i0\<close> complete rows before it, then the assignment of row \<open>i0\<close> without a
  result. When no row raises, \<open>eval\<close> returns with all \<open>2 ^ n\<close> rows.
\<close>

theorem eval_raises_at_first_row:
  "(isl (eval H ev) \<longleftrightarrow>
      (\<exists>i < 2 ^ length (ev_variables ev).
         case host_eval H (ev_expression_py ev) (row_globals (ev_variables ev) i) of
           Inl e \<Rightarrow> True
         | Inr v \<Rightarrow> isl (host_format H (length (ev_expression ev)) v)))
   \<and> (i0 < 2 ^ length (ev_variables ev) \<and> isl (eval_row H ev i0)
        \<and> (\<forall>i < i0. \<not> isl (eval_row H ev i)) \<longrightarrow>
      eval H ev =
        Inl (fst (projl (eval_row H ev i0)),
             ev\<lparr>ev_lines := map (\<lambda>i. projr (eval_row H ev i)) [0 ..< i0]
                    @ [map (\<lambda>(k, v). (k, Bit v)) (assign_row (ev_variables ev) i0)]\<rparr>))
   \<and> ((\<forall>i < 2 ^ length (ev_variables ev). \<not> isl (eval_row H ev i)) \<longrightarrow>
      eval H ev =
        Inr (ev\<lparr>ev_lines := map (\<lambda>i. projr (eval_row H ev i))
                                [0 ..< 2 ^ length (ev_variables ev)]\<rparr>))"
proof (intro conjI impI)
  show "isl (eval H ev) \<longleftrightarrow>
      (\<exists>i < 2 ^ length (ev_variables ev).
         case host_eval H (ev_expression_py ev) (row_globals (ev_variables ev) i) of
           Inl e \<Rightarrow> True
         | Inr v \<Rightarrow> isl (host_format H (length (ev_expression ev)) v))"
    unfolding eval_def eval_rows_isl eval_row_lines eval_row_isl by auto
next
  let ?n = "2 ^ length (ev_variables ev) :: nat"
  let ?ev = "ev\<lparr>ev_lines := []\<rparr>"
  assume a: "i0 < ?n \<and> isl (eval_row H ev i0) \<and> (\<forall>i < i0. \<not> isl (eval_row H ev i))"
  then have u: "[0 ..< ?n] = [0 ..< i0] @ i0 # [Suc i0 ..< ?n]"
    using upt_add_eq_append [of 0 i0 "?n - i0"] by (simp add: upt_conv_Cons)
  have 1: "\<forall>i \<in> set [0 ..< i0]. \<not> isl (eval_row H ?ev i)" using a by simp
  have 2: "isl (eval_row H ?ev i0)" using a by simp
  have "eval H ev = eval_rows H ?ev ([0 ..< i0] @ i0 # [Suc i0 ..< ?n])"
    unfolding eval_def using u by simp
  also have "\<dots> = Inl (fst (projl (eval_row H ?ev i0)),
          ?ev\<lparr>ev_lines := ev_lines ?ev @ map (\<lambda>i. projr (eval_row H ?ev i)) [0 ..< i0]
                           @ [snd (projl (eval_row H ?ev i0))]\<rparr>)"
    using 1 2 by (rule eval_rows_first)
  finally show "eval H ev =
        Inl (fst (projl (eval_row H ev i0)),
             ev\<lparr>ev_lines := map (\<lambda>i. projr (eval_row H ev i)) [0 ..< i0]
                    @ [map (\<lambda>(k, v). (k, Bit v)) (assign_row (ev_variables ev) i0)]\<rparr>)"
    using eval_row_partial [of H ev i0] a by simp
next
  let ?n = "2 ^ length (ev_variables ev) :: nat"
  assume "\<forall>i < ?n. \<not> isl (eval_row H ev i)"
  then have "\<forall>i \<in> set [0 ..< ?n]. \<not> isl (eval_row H (ev\<lparr>ev_lines := []\<rparr>) i)" by simp
  from eval_rows_ok [OF this]
  show "eval H ev = Inr (ev\<lparr>ev_lines := map (\<lambda>i. projr (eval_row H ev i)) [0 ..< ?n]\<rparr>)"
    unfolding eval_def by simp
qed

theorem eval_raises_at_first_row_witness:
  "eval python (Evaluator_init ''A AND Z'' [''A'']) =
     Inl (EvalError,
          \<lparr>ev_expression = ''A AND Z'', ev_expression_py = ''A and Z'', ev_variables = [''A''],
           ev_lines = [[(''A'', Bit 0), ('' '', Text ''   0   '')], [(''A'', Bit 1)]]\<rparr>)
   \<and> py_eval ''A and Z'' (row_globals [''A''] 1) = Inl Raised"
proof -
  let ?ev = "Evaluator_init ''A AND Z'' [''A'']"
  have ev: "?ev = \<lparr>ev_expression = ''A AND Z'', ev_expression_py = ''A and Z'',
      ev_variables = [''A''], ev_lines = []\<rparr>"
    by code_simp
  have r0: "eval_row python ?ev 0 = Inr [(''A'', Bit 0), ('' '', Text ''   0   '')]"
    by code_simp
  have r1: "eval_row python ?ev 1 = Inl (EvalError, [(''A'', Bit 1)])"
    by code_simp
  have a1: "map (\<lambda>(k, v). (k, Bit v)) (assign_row (ev_variables ?ev) 1) = [(''A'', Bit 1)]"
    by code_simp
  have p: "py_eval ''A and Z'' (row_globals [''A''] 1) = Inl Raised"
    by code_simp
  have h: "(1::nat) < 2 ^ length (ev_variables ?ev) \<and> isl (eval_row python ?ev 1)
      \<and> (\<forall>i < 1. \<not> isl (eval_row python ?ev i))"
    using r0 r1 by (simp add: ev)
  from eval_raises_at_first_row [of python ?ev 1] h
  have "eval python ?ev =
        Inl (fst (projl (eval_row python ?ev 1)),
             ?ev\<lparr>ev_lines := map (\<lambda>i. projr (eval_row python ?ev i)) [0 ..< 1]
                    @ [map (\<lambda>(k, v). (k, Bit v)) (assign_row (ev_variables ?ev) 1)]\<rparr>)"
    by blast
  moreover have "map (\<lambda>i. projr (eval_row python ?ev i)) [0 ..< 1]
      = [[(''A'', Bit 0), ('' '', Text ''   0   '')]]"
    by code_simp
  moreover have "fst (projl (eval_row python ?ev 1)) = EvalError"
    by code_simp
  ultimately have "eval python ?ev = Inl (EvalError,
      ?ev\<lparr>ev_lines := [[(''A'', Bit 0), ('' '', Text ''   0   '')]] @ [[(''A'', Bit 1)]]\<rparr>)"
    using a1 by (simp only:)
  moreover have "?ev\<lparr>ev_lines := [[(''A'', Bit 0), ('' '', Text ''   0   '')]] @ [[(''A'', Bit 1)]]\<rparr>
      = \<lparr>ev_expression = ''A AND Z'', ev_expression_py = ''A and Z'', ev_variables = [''A''],
           ev_lines = [[(''A'', Bit 0), ('' '', Text ''   0   '')], [(''A'', Bit 1)]]\<rparr>"
    by code_simp
  ultimately have "eval python ?ev = Inl (EvalError,
          \<lparr>ev_expression = ''A AND Z'', ev_expression_py = ''A and Z'', ev_variables = [''A''],
           ev_lines = [[(''A'', Bit 0), ('' '', Text ''   0   '')], [(''A'', Bit 1)]]\<rparr>)"
    by (simp only:)
  with p show ?thesis by (intro conjI)
qed

text \<open>
  The claim is that a text naming a variable outside the list makes \<open>eval\<close> fail. In
  \<open>A OR NOT ( A ) OR Z\<close> over the variable \<open>A\<close> the name \<open>Z\<close> is unbound (evaluating \<open>Z\<close>
  alone raises), but \<open>or\<close> never reaches it: \<open>eval\<close> returns both rows.
\<close>

theorem eval_unknown_name_returns:
  "eval python (Evaluator_init ''A OR NOT ( A ) OR Z'' [''A'']) =
     Inr \<lparr>ev_expression = ''A OR NOT ( A ) OR Z'',
          ev_expression_py = ''A or not ( A ) or Z'', ev_variables = [''A''],
          ev_lines =
            [[(''A'', Bit 0), ('' '', Text ''         1         '')],
             [(''A'', Bit 1), ('' '', Text ''         1         '')]]\<rparr>
   \<and> py_eval ''Z'' [(''A'', Some 0), (''__builtins__'', None)] = Inl Raised"
  by code_simp


section \<open>The text that is evaluated\<close>

lemma str_replace_Nil: "old \<noteq> [] \<Longrightarrow> str_replace old new [] = []"
  by (simp add: str_replace.simps [of old new "[]"])

lemma str_replace_match:
  "old \<noteq> [] \<Longrightarrow> s \<noteq> [] \<Longrightarrow> prefix old s \<Longrightarrow>
   str_replace old new s = new @ str_replace old new (drop (length old) s)"
  by (simp add: str_replace.simps [of old new s])

lemma str_replace_skip:
  "old \<noteq> [] \<Longrightarrow> \<not> prefix old (c # cs) \<Longrightarrow>
   str_replace old new (c # cs) = c # str_replace old new cs"
  by (simp add: str_replace.simps [of old new "c # cs"])

lemma str_replace_prefix:
  assumes "old \<noteq> []" "new \<noteq> []"
  shows "hd new \<notin> set r \<Longrightarrow> prefix r (str_replace old new s) \<Longrightarrow> prefix r s"
proof (induction s arbitrary: r)
  case Nil
  then show ?case using assms by (simp add: str_replace_Nil)
next
  case (Cons c cs)
  show ?case
  proof (cases r)
    case Nil
    then show ?thesis by simp
  next
    case r: (Cons x r')
    show ?thesis
    proof (cases "prefix old (c # cs)")
      case True
      then have "str_replace old new (c # cs) = new @ str_replace old new (drop (length old) (c # cs))"
        using assms by (simp add: str_replace_match)
      with Cons.prems(2) r assms(2) have "x = hd new"
        by (cases new) (auto simp: prefix_Cons)
      with Cons.prems(1) r show ?thesis by simp
    next
      case False
      then have "str_replace old new (c # cs) = c # str_replace old new cs"
        using assms by (simp add: str_replace_skip)
      with Cons.prems(2) r have "x = c" "prefix r' (str_replace old new cs)"
        by simp_all
      moreover have "hd new \<notin> set r'" using Cons.prems(1) r by simp
      ultimately show ?thesis using Cons.IH [of r'] r by simp
    qed
  qed
qed

lemma sublist_new_append:
  assumes "p \<noteq> []" "set p \<inter> set new = {}" "sublist p (new @ t)"
  shows "sublist p t"
proof -
  from assms(3) consider "sublist p new" | "sublist p t"
    | xs1 xs2 where "p = xs1 @ xs2" "suffix xs1 new" "prefix xs2 t"
    unfolding sublist_append by blast
  then show ?thesis
  proof cases
    case 1
    then have "set p \<subseteq> set new" by (rule set_mono_sublist)
    with assms(1,2) show ?thesis by (cases p) auto
  next
    case 2
    then show ?thesis .
  next
    case 3
    show ?thesis
    proof (cases xs1)
      case Nil
      with 3 have "prefix p t" by simp
      then show ?thesis by (rule prefix_imp_sublist)
    next
      case (Cons y ys)
      with 3(2) have "y \<in> set new" by (auto simp: suffix_def)
      moreover have "y \<in> set p" using 3(1) Cons by simp
      ultimately show ?thesis using assms(2) by blast
    qed
  qed
qed

lemma str_replace_sublist:
  assumes "old \<noteq> []" "new \<noteq> []" "p \<noteq> []" "set p \<inter> set new = {}"
  shows "sublist p (str_replace old new s) \<Longrightarrow> sublist p s"
proof (induction "length s" arbitrary: s rule: less_induct)
  case less
  show ?case
  proof (cases s)
    case Nil
    with less.prems assms show ?thesis by (simp add: str_replace_Nil)
  next
    case (Cons c cs)
    show ?thesis
    proof (cases "prefix old s")
      case True
      let ?t = "drop (length old) s"
      have "str_replace old new s = new @ str_replace old new ?t"
        using True assms Cons by (simp add: str_replace_match)
      with less.prems have "sublist p (str_replace old new ?t)"
        using sublist_new_append [OF assms(3,4)] by simp
      moreover have "length ?t < length s" using assms(1) Cons by simp
      ultimately have "sublist p ?t" by (rule less.hyps [rotated])
      then show ?thesis
        using sublist_drop [of "length old" s] sublist_order.order.trans by blast
    next
      case False
      then have e: "str_replace old new s = c # str_replace old new cs"
        using assms Cons by (simp add: str_replace_skip)
      from less.prems consider "prefix p (str_replace old new s)" | "sublist p (str_replace old new cs)"
        unfolding e sublist_Cons_right by blast
      then show ?thesis
      proof cases
        case 1
        have "hd new \<notin> set p" using assms(2,4) by (cases new) auto
        from str_replace_prefix [OF assms(1,2) this 1] show ?thesis
          by (rule prefix_imp_sublist)
      next
        case 2
        have "length cs < length s" using Cons by simp
        from less.hyps [OF this 2] show ?thesis
          using Cons by (simp add: sublist_Cons_right)
      qed
    qed
  qed
qed

lemma str_replace_removes:
  assumes "old = a # rest" "a \<notin> set rest" "a \<notin> set new" "new \<noteq> []" "hd new \<notin> set rest"
  shows "\<not> sublist old (str_replace old new s)"
proof (induction "length s" arbitrary: s rule: less_induct)
  case less
  have old: "old \<noteq> []" using assms(1) by simp
  show ?case
  proof (cases s)
    case Nil
    then show ?thesis using old by (simp add: str_replace_Nil)
  next
    case (Cons c cs)
    show ?thesis
    proof (cases "prefix old s")
      case True
      let ?t = "drop (length old) s"
      have e: "str_replace old new s = new @ str_replace old new ?t"
        using True old Cons by (simp add: str_replace_match)
      have "length ?t < length s" using old Cons by simp
      then have n: "\<not> sublist old (str_replace old new ?t)" by (rule less.hyps)
      show ?thesis
      proof
        assume "sublist old (str_replace old new s)"
        then consider "sublist old new" | "sublist old (str_replace old new ?t)"
          | xs1 xs2 where "old = xs1 @ xs2" "suffix xs1 new" "prefix xs2 (str_replace old new ?t)"
          unfolding e sublist_append by blast
        then show False
        proof cases
          case 1
          then have "set old \<subseteq> set new" by (rule set_mono_sublist)
          with assms(1,3) show False by auto
        next
          case 2
          with n show False ..
        next
          case 3
          show False
          proof (cases xs1)
            case Nil
            with 3 have "sublist old (str_replace old new ?t)"
              by (simp add: prefix_imp_sublist)
            with n show False ..
          next
            case (Cons y ys)
            with 3(1) assms(1) have "y = a" by simp
            moreover from Cons 3(2) have "y \<in> set new" by (auto simp: suffix_def)
            ultimately show False using assms(3) by simp
          qed
        qed
      qed
    next
      case False
      then have e: "str_replace old new s = c # str_replace old new cs"
        using old Cons by (simp add: str_replace_skip)
      have "length cs < length s" using Cons by simp
      then have n: "\<not> sublist old (str_replace old new cs)" by (rule less.hyps)
      show ?thesis
      proof
        assume "sublist old (str_replace old new s)"
        with n have "prefix old (c # str_replace old new cs)"
          unfolding e sublist_Cons_right by blast
        then have "c = a \<and> prefix rest (str_replace old new cs)"
          unfolding assms(1) by auto
        then have "c = a" "prefix rest (str_replace old new cs)" by blast+
        from str_replace_prefix [OF old assms(4,5) this(2)] this(1)
        have "prefix old s" using assms(1) Cons by simp
        with False show False ..
      qed
    qed
  qed
qed


lemma eval_rows_same_host:
  assumes "\<forall>g. host_eval H (ev_expression_py ev) g = host_eval H' (ev_expression_py ev) g"
    and "host_format H = host_format H'"
  shows "eval_rows H ev js = eval_rows H' ev js"
  using assms(1)
proof (induction js arbitrary: ev)
  case Nil
  show ?case by simp
next
  case (Cons i js)
  have r: "eval_row H ev i = eval_row H' ev i"
    using Cons.prems assms(2) by (simp add: eval_row_def Let_def split: sum.splits)
  show ?case
  proof (cases "eval_row H' ev i")
    case (Inl p)
    with r show ?thesis by (cases p) simp
  next
    case (Inr row)
    with r Cons.IH [of "ev\<lparr>ev_lines := ev_lines ev @ [row]\<rparr>"] Cons.prems
    show ?thesis by simp
  qed
qed

lemma rewritten_no_keyword:
  "\<not> sublist ''OR'' (str_replace ''AND'' ''and'' (str_replace ''NOT'' ''not'' (str_replace ''OR'' ''or'' e)))"
  "\<not> sublist ''NOT'' (str_replace ''AND'' ''and'' (str_replace ''NOT'' ''not'' (str_replace ''OR'' ''or'' e)))"
  "\<not> sublist ''AND'' (str_replace ''AND'' ''and'' (str_replace ''NOT'' ''not'' (str_replace ''OR'' ''or'' e)))"
proof -
  have 1: "\<not> sublist ''OR'' (str_replace ''OR'' ''or'' s)" for s
    by (rule str_replace_removes [of _ "CHR ''O''" "''R''"]) simp_all
  have 2: "\<not> sublist ''NOT'' (str_replace ''NOT'' ''not'' s)" for s
    by (rule str_replace_removes [of _ "CHR ''N''" "''OT''"]) simp_all
  have 3: "\<not> sublist ''AND'' (str_replace ''AND'' ''and'' s)" for s
    by (rule str_replace_removes [of _ "CHR ''A''" "''ND''"]) simp_all
  have k1: "sublist ''OR'' (str_replace ''NOT'' ''not'' s) \<Longrightarrow> sublist ''OR'' s" for s
    by (rule str_replace_sublist [of "''NOT''" "''not''" "''OR''"]) simp_all
  have k2: "sublist ''OR'' (str_replace ''AND'' ''and'' s) \<Longrightarrow> sublist ''OR'' s" for s
    by (rule str_replace_sublist [of "''AND''" "''and''" "''OR''"]) simp_all
  have k3: "sublist ''NOT'' (str_replace ''AND'' ''and'' s) \<Longrightarrow> sublist ''NOT'' s" for s
    by (rule str_replace_sublist [of "''AND''" "''and''" "''NOT''"]) simp_all
  show "\<not> sublist ''OR'' (str_replace ''AND'' ''and'' (str_replace ''NOT'' ''not'' (str_replace ''OR'' ''or'' e)))"
    using 1 k1 k2 by blast
  show "\<not> sublist ''NOT'' (str_replace ''AND'' ''and'' (str_replace ''NOT'' ''not'' (str_replace ''OR'' ''or'' e)))"
    using 2 k3 by blast
  show "\<not> sublist ''AND'' (str_replace ''AND'' ''and'' (str_replace ''NOT'' ''not'' (str_replace ''OR'' ''or'' e)))"
    using 3 by blast
qed

text \<open>
  Claim C10. The private text of the evaluator is the expression with \<open>OR\<close>, then \<open>NOT\<close>,
  then \<open>AND\<close> replaced by their lower-case forms wherever they occur, inside names too.
  It is the only text handed to the host: two hosts that agree on it (and on formatting)
  give the same outcome. No \<open>OR\<close>, \<open>NOT\<close> or \<open>AND\<close> is left in it, so a name that contains
  one of them does not occur in it and cannot be looked up under that name.
\<close>

theorem evaluator_rewrites_operators:
  "ev_expression_py (Evaluator_init e vs) =
     str_replace ''AND'' ''and'' (str_replace ''NOT'' ''not'' (str_replace ''OR'' ''or'' e))
   \<and> ((\<forall>g. host_eval H (ev_expression_py (Evaluator_init e vs)) g
             = host_eval H' (ev_expression_py (Evaluator_init e vs)) g)
        \<and> host_format H = host_format H'
        \<longrightarrow> eval H (Evaluator_init e vs) = eval H' (Evaluator_init e vs))
   \<and> (sublist ''OR'' v \<or> sublist ''NOT'' v \<or> sublist ''AND'' v
        \<longrightarrow> \<not> sublist v (ev_expression_py (Evaluator_init e vs)))"
proof (intro conjI impI)
  show py: "ev_expression_py (Evaluator_init e vs) =
     str_replace ''AND'' ''and'' (str_replace ''NOT'' ''not'' (str_replace ''OR'' ''or'' e))"
    by (simp add: Evaluator_init_def)
  show "eval H (Evaluator_init e vs) = eval H' (Evaluator_init e vs)"
    if "(\<forall>g. host_eval H (ev_expression_py (Evaluator_init e vs)) g
             = host_eval H' (ev_expression_py (Evaluator_init e vs)) g)
        \<and> host_format H = host_format H'"
    unfolding eval_def
    using that by (intro eval_rows_same_host) simp_all
  show "\<not> sublist v (ev_expression_py (Evaluator_init e vs))"
    if "sublist ''OR'' v \<or> sublist ''NOT'' v \<or> sublist ''AND'' v"
  proof
    assume "sublist v (ev_expression_py (Evaluator_init e vs))"
    with that have "sublist ''OR'' (ev_expression_py (Evaluator_init e vs))
      \<or> sublist ''NOT'' (ev_expression_py (Evaluator_init e vs))
      \<or> sublist ''AND'' (ev_expression_py (Evaluator_init e vs))"
      using sublist_order.order.trans by blast
    then show False
      unfolding py using rewritten_no_keyword [of e] by blast
  qed
qed

theorem evaluator_rewrites_operators_witness:
  "sublist ''OR'' ''ORANGE''
   \<and> ev_expression_py (Evaluator_init ''ORANGE OR B'' [''ORANGE'', ''B'']) = ''orANGE or B''
   \<and> \<not> sublist ''ORANGE'' (ev_expression_py (Evaluator_init ''ORANGE OR B'' [''ORANGE'', ''B'']))"
proof -
  have a: "sublist ''OR'' ''ORANGE''" by code_simp
  have b: "ev_expression_py (Evaluator_init ''ORANGE OR B'' [''ORANGE'', ''B'']) = ''orANGE or B''"
    by code_simp
  from a evaluator_rewrites_operators [of "''ORANGE OR B''" "[''ORANGE'', ''B'']" python python "''ORANGE''"]
  have "\<not> sublist ''ORANGE'' (ev_expression_py (Evaluator_init ''ORANGE OR B'' [''ORANGE'', ''B'']))"
    by blast
  with a b show ?thesis by simp
qed

text \<open>For instance the variable \<open>ORANGE\<close> is evaluated as the unbound name \<open>orANGE\<close>.\<close>

lemma renamed_variable_unbound:
  "eval python (Evaluator_init ''ORANGE OR B'' [''ORANGE'', ''B'']) =
     Inl (EvalError, \<lparr>ev_expression = ''ORANGE OR B'', ev_expression_py = ''orANGE or B'',
        ev_variables = [''B'', ''ORANGE''], ev_lines = [[(''B'', Bit 0), (''ORANGE'', Bit 0)]]\<rparr>)"
  by code_simp

section \<open>Positions in the token sequence\<close>

subsection \<open>list.insert and list.index\<close>

lemma py_insert_nat:
  "k \<le> length xs \<Longrightarrow> py_insert (int k) x xs = take k xs @ x # drop k xs"
  by (simp add: py_insert_def Let_def min_def)

lemma py_insert_form: "\<exists>j. py_insert i x xs = take j xs @ x # drop j xs"
  unfolding py_insert_def Let_def by blast

lemma filter_py_insert: "\<not> Q x \<Longrightarrow> filter Q (py_insert i x xs) = filter Q xs"
proof -
  assume q: "\<not> Q x"
  obtain j where "py_insert i x xs = take j xs @ x # drop j xs"
    using py_insert_form [of i x xs] by blast
  then have "filter Q (py_insert i x xs) = filter Q (take j xs) @ filter Q (drop j xs)"
    using q by simp
  also have "\<dots> = filter Q (take j xs @ drop j xs)" by (simp only: filter_append)
  also have "\<dots> = filter Q xs" by (simp only: append_take_drop_id)
  finally show ?thesis .
qed

lemma set_py_insert: "set (py_insert i x xs) = insert x (set xs)"
proof -
  obtain j where j: "py_insert i x xs = take j xs @ x # drop j xs"
    using py_insert_form [of i x xs] by blast
  have "set (take j xs @ x # drop j xs) = insert x (set (take j xs) \<union> set (drop j xs))"
    by simp
  also have "set (take j xs) \<union> set (drop j xs) = set (take j xs @ drop j xs)"
    by (simp only: set_append)
  also have "\<dots> = set xs" by (simp only: append_take_drop_id)
  finally show ?thesis unfolding j .
qed

lemma py_index_append:
  "x \<notin> set pre \<Longrightarrow> py_index (pre @ x # post) x = Some (length pre)"
  by (induction pre) auto

lemma py_index_split:
  assumes "x \<in> set xs"
  shows "\<exists>pre post. xs = pre @ x # post \<and> x \<notin> set pre \<and> py_index xs x = Some (length pre)"
proof -
  from split_list_first [OF assms]
  obtain pre post where p: "xs = pre @ x # post" "x \<notin> set pre" by blast
  have "py_index xs x = Some (length pre)"
    unfolding p(1) using p(2) by (rule py_index_append)
  with p show ?thesis by (intro exI [of _ pre] exI [of _ post]) simp
qed

lemma ix_append: "x \<notin> set pre \<Longrightarrow> ix (pre @ x # post) x = length pre"
  by (simp add: ix_def py_index_append)

lemma index_of_ix:
  assumes "x \<in> set xs"
  shows "index_of xs x = Inr (int (ix xs x))"
proof -
  from py_index_split [OF assms]
  obtain pre post where "xs = pre @ x # post" "py_index xs x = Some (length pre)"
    by (elim exE conjE)
  then show ?thesis by (simp add: index_of_def ix_def)
qed

lemma ix_less:
  assumes "x \<in> set xs"
  shows "ix xs x < length xs"
proof -
  from py_index_split [OF assms]
  obtain pre post where "xs = pre @ x # post" "py_index xs x = Some (length pre)"
    by (elim exE conjE)
  then show ?thesis by (simp add: ix_def)
qed

lemma nth_ix:
  assumes "x \<in> set xs"
  shows "xs ! ix xs x = x"
proof -
  from py_index_split [OF assms]
  obtain pre post where "xs = pre @ x # post" "py_index xs x = Some (length pre)"
    by (elim exE conjE)
  then show ?thesis by (simp add: ix_def)
qed

lemma py_index_None: "v \<notin> set e \<Longrightarrow> py_index e v = None"
  by (induction e) auto

lemma ix_Cons: "ix (t # e) v = (if t = v then 0 else if v \<in> set e then Suc (ix e v) else 0)"
proof (cases "v \<in> set e")
  case True
  from py_index_split [OF this]
  obtain pre post where "e = pre @ v # post" "py_index e v = Some (length pre)"
    by (elim exE conjE)
  with True show ?thesis by (simp add: ix_def)
next
  case False
  then show ?thesis by (simp add: ix_def py_index_None)
qed

text \<open>Variables that stand in the order \<open>vs\<close> in \<open>e\<close> have increasing first positions.\<close>

lemma ix_sorted:
  "filter (\<lambda>t. t \<in> set vs) e = vs \<Longrightarrow> distinct vs \<Longrightarrow> sorted_wrt (<) (map (ix e) vs)"
proof (induction e arbitrary: vs)
  case Nil
  then show ?case by simp
next
  case (Cons t e)
  show ?case
  proof (cases "t \<in> set vs")
    case True
    define vs' where "vs' = filter (\<lambda>x. x \<in> set vs) e"
    have f: "filter (\<lambda>x. x \<in> set vs) e = vs'" by (simp add: vs'_def)
    have vs: "vs = t # vs'"
      using Cons.prems(1) True unfolding vs'_def by simp
    from Cons.prems(2) vs have d: "t \<notin> set vs'" "distinct vs'" by simp_all
    have te: "t \<notin> set e"
    proof
      assume "t \<in> set e"
      with True have "t \<in> set (filter (\<lambda>x. x \<in> set vs) e)" by simp
      with f d(1) show False by simp
    qed
    have "filter (\<lambda>x. x \<in> set vs') e = filter (\<lambda>x. x \<in> set vs) e"
      using te vs by (intro filter_cong) auto
    with f have f': "filter (\<lambda>x. x \<in> set vs') e = vs'" by simp
    from Cons.IH [OF f' d(2)] have s: "sorted_wrt (<) (map (ix e) vs')" .
    have sub: "set vs' \<subseteq> set e" using filter_is_subset [of "\<lambda>x. x \<in> set vs'" e] f' by simp
    have m: "map (ix (t # e)) vs' = map (\<lambda>v. Suc (ix e v)) vs'"
      using sub d(1) by (intro map_cong) (auto simp: ix_Cons)
    have "sorted_wrt (<) (map (\<lambda>v. Suc (ix e v)) vs')"
      using s by (simp add: sorted_wrt_map)
    moreover have "map (ix (t # e)) vs = 0 # map (\<lambda>v. Suc (ix e v)) vs'"
      unfolding vs using m by (simp add: ix_Cons)
    ultimately show ?thesis by simp
  next
    case False
    with Cons.prems(1) have f: "filter (\<lambda>x. x \<in> set vs) e = vs" by simp
    from Cons.IH [OF f Cons.prems(2)] have s: "sorted_wrt (<) (map (ix e) vs)" .
    have sub: "set vs \<subseteq> set e" using filter_is_subset [of "\<lambda>x. x \<in> set vs" e] f by simp
    have m: "map (ix (t # e)) vs = map (\<lambda>v. Suc (ix e v)) vs"
      using sub False by (intro map_cong) (auto simp: ix_Cons)
    show ?thesis
      unfolding m using s by (simp add: sorted_wrt_map)
  qed
qed

lemma ix_mono:
  assumes "filter (\<lambda>t. t \<in> set vs) e = vs" "distinct vs" "i < j" "j < length vs"
  shows "ix e (vs ! i) < ix e (vs ! j)"
  using ix_sorted [OF assms(1,2)] assms(3,4)
  by (simp add: sorted_wrt_iff_nth_less)

subsection \<open>Dictionaries over the variables\<close>

lemma dict_set_new: "k \<notin> fst ` set d \<Longrightarrow> dict_set d k v = d @ [(k, v)]"
  by (induction d) auto

lemma dict_of_distinct_aux:
  "distinct (map fst ps) \<Longrightarrow> fst ` set acc \<inter> fst ` set ps = {} \<Longrightarrow>
   fold (\<lambda>(k, v) d. dict_set d k v) ps acc = acc @ ps"
proof (induction ps arbitrary: acc)
  case Nil
  show ?case by simp
next
  case (Cons p ps)
  obtain k v where p: "p = (k, v)" by (cases p)
  have n: "k \<notin> fst ` set acc" using Cons.prems(2) p by auto
  have "fst ` set (acc @ [(k, v)]) \<inter> fst ` set ps = {}"
    using Cons.prems p by auto
  moreover have "distinct (map fst ps)" using Cons.prems(1) by simp
  ultimately have "fold (\<lambda>(k, v) d. dict_set d k v) ps (acc @ [(k, v)]) = (acc @ [(k, v)]) @ ps"
    by (rule Cons.IH [rotated])
  then show ?case using p n by (simp add: dict_set_new)
qed

lemma dict_of_distinct: "distinct (map fst ps) \<Longrightarrow> dict_of ps = ps"
  using dict_of_distinct_aux [of ps "[]"] by (simp add: dict_of_def)

lemma map_fst_dictf [simp]: "map fst (dictf f ks) = ks"
  by (simp add: dictf_def comp_def)

lemma length_dictf [simp]: "length (dictf f ks) = length ks"
  by (simp add: dictf_def)

lemma dict_get_dictf: "k \<in> set ks \<Longrightarrow> dict_get (dictf f ks) k = Inr (f k)"
  by (induction ks) (auto simp: dict_get_def dictf_def)

lemma dict_set_dictf:
  "k \<in> set ks \<Longrightarrow> distinct ks \<Longrightarrow> dict_set (dictf f ks) k v = dictf (f(k := v)) ks"
proof (induction ks)
  case Nil
  then show ?case by simp
next
  case (Cons a ks)
  show ?case
  proof (cases "a = k")
    case True
    then have "k \<notin> set ks" using Cons.prems(2) by simp
    then have "map (\<lambda>u. (u, (f(k := v)) u)) ks = map (\<lambda>u. (u, f u)) ks"
      by (intro map_cong) auto
    with True show ?thesis by (simp add: dictf_def)
  next
    case False
    with Cons show ?thesis by (simp add: dictf_def)
  qed
qed

lemma dict_add_dictf:
  "k \<in> set ks \<Longrightarrow> distinct ks \<Longrightarrow> dict_add (dictf f ks) k n = Inr (dictf (f(k := f k + n)) ks)"
  by (simp add: dict_add_def dict_get_dictf dict_set_dictf)

lemma ix_dictf:
  "distinct ks \<Longrightarrow> i < length ks \<Longrightarrow> ix (dictf f ks) (ks ! i, f (ks ! i)) = i"
proof -
  assume d: "distinct ks" and i: "i < length ks"
  have n: "dictf f ks ! i = (ks ! i, f (ks ! i))"
    using i by (simp add: dictf_def)
  have e: "dictf f ks = take i (dictf f ks) @ (ks ! i, f (ks ! i)) # drop (Suc i) (dictf f ks)"
    using id_take_nth_drop [of i "dictf f ks"] i n by simp
  have "ks ! i \<notin> set (take i ks)"
  proof
    assume "ks ! i \<in> set (take i ks)"
    then obtain j where j: "j < length (take i ks)" "take i ks ! j = ks ! i"
      by (auto simp: in_set_conv_nth)
    then have "j < i" "ks ! j = ks ! i" by simp_all
    with d i show False by (simp add: nth_eq_iff_index_eq)
  qed
  then have "(ks ! i, f (ks ! i)) \<notin> set (take i (dictf f ks))"
    by (auto simp: dictf_def take_map)
  from ix_append [OF this, of "drop (Suc i) (dictf f ks)"]
  have "ix (dictf f ks) (ks ! i, f (ks ! i)) = length (take i (dictf f ks))"
    using e by simp
  then show ?thesis using i by simp
qed

lemma index_of_dictf:
  "distinct ks \<Longrightarrow> i < length ks \<Longrightarrow> index_of (dictf f ks) (ks ! i, f (ks ! i)) = Inr (int i)"
proof -
  assume d: "distinct ks" and i: "i < length ks"
  have "(ks ! i, f (ks ! i)) \<in> set (dictf f ks)"
    using i by (auto simp: dictf_def)
  from index_of_ix [OF this] ix_dictf [OF d i] show ?thesis by simp
qed

lemma py_get_dictf:
  "i < length ks \<Longrightarrow> py_get (dictf f ks) (int i) = Inr (ks ! i, f (ks ! i))"
  by (simp add: py_get_def dictf_def)

section \<open>The steps of the extra-group loop\<close>

subsection \<open>Recomputing the indices\<close>

lemma collect_indices_dictf:
  "set ws \<subseteq> set e \<Longrightarrow> collect_indices e ws = Inr (dictf (\<lambda>v. int (ix e v)) ws)"
  by (induction ws) (simp_all add: dictf_def index_of_ix)

lemma generate_indices_dictf:
  assumes "filter (\<lambda>t. t \<in> set vs) e = vs" "distinct vs"
    "eb_variables b = vs" "eb_expression b = e"
  shows "generate_indices_of_variables b = Inr (dictf (\<lambda>v. int (ix e v)) vs)"
proof -
  let ?ps = "dictf (\<lambda>v. int (ix e v)) vs"
  have sub: "set vs \<subseteq> set e"
    using filter_is_subset [of "\<lambda>t. t \<in> set vs" e] assms(1) by simp
  have "sorted_wrt (<) (map (ix e) vs)" using assms(1,2) by (rule ix_sorted)
  then have "sorted_wrt (\<lambda>a b. int (ix e a) \<le> int (ix e b)) vs"
    by (simp add: sorted_wrt_map) (erule sorted_wrt_mono_rel [rotated], simp)
  then have "sorted (map snd ?ps)"
    by (simp add: dictf_def comp_def sorted_wrt_map)
  then have "sort_key snd ?ps = ?ps" by (rule sort_key_id_if_sorted)
  moreover have "dict_of ?ps = ?ps"
    using assms(2) by (intro dict_of_distinct) simp
  ultimately show ?thesis
    using collect_indices_dictf [OF sub] assms(3,4)
    by (simp add: generate_indices_of_variables_def)
qed

subsection \<open>Choosing the two variables of a group\<close>

lemma generate_positions_dictf:
  assumes "distinct vs" "2 \<le> length vs"
  shows "\<exists>c rs'. Suc c < length vs \<and>
     generate_parentheses_positions (dictf f vs) rs = Inr ((vs ! c, vs ! Suc c), rs')"
proof -
  have ne: "butlast vs \<noteq> []" using assms(2) by (cases vs rule: rev_cases) auto
  obtain c rs' where r: "randbelow (length (butlast vs)) rs = (c, rs')"
    by (cases "randbelow (length (butlast vs)) rs")
  have "0 < length (butlast vs)" using assms(2) by simp
  from randbelow_less [OF this, of rs] r have c: "c < length vs - 1" by simp
  then have c': "Suc c < length vs" "c < length vs" by simp_all
  have ch: "random_choice (butlast (map fst (dictf f vs))) rs = Inr (vs ! c, rs')"
    using ne r c by (simp add: random_choice_def nth_butlast)
  have m: "vs ! c \<in> set vs" using c' by simp
  have g: "py_get (dictf f vs) (int c + 1) = Inr (vs ! Suc c, f (vs ! Suc c))"
    using py_get_dictf [OF c'(1), of f] by (simp add: add.commute)
  show ?thesis
    using c'(1) ch dict_get_dictf [OF m, of f] index_of_dictf [OF assms(1) c'(2), of f] g
    by (intro exI [of _ c] exI [of _ rs']) (simp add: generate_parentheses_positions_def)
qed

subsection \<open>Inserting a pair of parentheses\<close>

lemma insert_parentheses_dictf:
  assumes "distinct vs" "l \<in> set vs" "r \<in> set vs" "l \<noteq> r"
    "eb_parentheses b = dictf f vs"
  shows "\<exists>par. insert_parentheses b l r =
     Inr (if f l = 0 \<and> f r + 1 + (if r = fst (eb_not_expr b) then 2 else 0)
                 \<ge> int (length (eb_expression b)) - 1
          then b\<lparr>eb_parentheses := par\<rparr>
          else b\<lparr>eb_parentheses := par,
                 eb_expression := py_insert (f l) ''(''
                   (py_insert (f r + 1 + (if r = fst (eb_not_expr b) then 2 else 0)) '')''
                      (eb_expression b))\<rparr>)"
proof (cases "r = fst (eb_not_expr b)")
  case True
  let ?f1 = "f(r := f r + 2)"
  let ?f2 = "?f1(r := ?f1 r + 1)"
  have 1: "dict_add (dictf f vs) r 2 = Inr (dictf ?f1 vs)"
    using assms(1,3) by (simp add: dict_add_dictf)
  have 2: "dict_add (dictf ?f1 vs) r 1 = Inr (dictf ?f2 vs)"
    using assms(1,3) by (rule dict_add_dictf [rotated])
  have 3: "dict_get (dictf ?f2 vs) l = Inr (f l)"
    using dict_get_dictf [OF assms(2), of ?f2] assms(4) by simp
  have 4: "dict_get (dictf ?f2 vs) r = Inr (f r + 2 + 1)"
    using dict_get_dictf [OF assms(3), of ?f2] by simp
  show ?thesis
    using True 1 2 3 4 assms(5)
    by (intro exI [of _ "dictf ?f2 vs"]) (simp add: insert_parentheses_def Let_def)
next
  case False
  let ?f2 = "f(r := f r + 1)"
  have 2: "dict_add (dictf f vs) r 1 = Inr (dictf ?f2 vs)"
    using assms(1,3) by (simp add: dict_add_dictf)
  have 3: "dict_get (dictf ?f2 vs) l = Inr (f l)"
    using dict_get_dictf [OF assms(2), of ?f2] assms(4) by simp
  have 4: "dict_get (dictf ?f2 vs) r = Inr (f r + 1)"
    using dict_get_dictf [OF assms(3), of ?f2] by simp
  show ?thesis
    using False 2 3 4 assms(5)
    by (intro exI [of _ "dictf ?f2 vs"]) (simp add: insert_parentheses_def Let_def)
qed

subsection \<open>One round of the loop\<close>

lemma extra_group_step:
  assumes "filter (\<lambda>t. t \<in> set vs) e = vs" "distinct vs" "2 \<le> length vs"
    "eb_variables b = vs" "eb_expression b = e" "fst (eb_not_expr b) = nv" "nv \<in> set vs"
  shows "\<exists>c rs' par E. Suc c < length vs
     \<and> extra_group b rs = Inr (b\<lparr>eb_parentheses := par, eb_expression := E\<rparr>, rs')
     \<and> (E = e \<or> E = py_insert (if vs ! c = nv then int (ix e nv) - 2 else int (ix e (vs ! c))) ''(''
                      (py_insert (int (ix e (vs ! Suc c)) + 1) '')'' e))"
proof -
  let ?f = "\<lambda>v. int (ix e v)"
  let ?f' = "?f(nv := ?f nv + - 2)"
  have g: "generate_indices_of_variables b = Inr (dictf ?f vs)"
    using assms(1,2,4,5) by (rule generate_indices_dictf)
  have a: "dict_add (dictf ?f vs) nv (- 2) = Inr (dictf ?f' vs)"
    using assms(7,2) by (rule dict_add_dictf)
  from generate_positions_dictf [OF assms(2,3), of ?f' rs]
  obtain c rs' where c: "Suc c < length vs"
    and p: "generate_parentheses_positions (dictf ?f' vs) rs = Inr ((vs ! c, vs ! Suc c), rs')"
    by blast
  let ?l = "vs ! c" and ?r = "vs ! Suc c"
  let ?b1 = "b\<lparr>eb_parentheses := dictf ?f' vs\<rparr>"
  have lr: "?l \<in> set vs" "?r \<in> set vs" "?l \<noteq> ?r"
    using c assms(2) by (simp_all add: nth_eq_iff_index_eq)
  from insert_parentheses_dictf [OF assms(2) lr, of ?b1 ?f']
  obtain par where ins: "insert_parentheses ?b1 ?l ?r =
     Inr (if ?f' ?l = 0 \<and> ?f' ?r + 1 + (if ?r = fst (eb_not_expr ?b1) then 2 else 0)
                 \<ge> int (length (eb_expression ?b1)) - 1
          then ?b1\<lparr>eb_parentheses := par\<rparr>
          else ?b1\<lparr>eb_parentheses := par,
                 eb_expression := py_insert (?f' ?l) ''(''
                   (py_insert (?f' ?r + 1 + (if ?r = fst (eb_not_expr ?b1) then 2 else 0)) '')''
                      (eb_expression ?b1))\<rparr>)"
    by auto
  define pl where "pl = (if ?l = nv then int (ix e nv) - 2 else int (ix e ?l))"
  define pr where "pr = int (ix e ?r) + 1"
  have fl: "?f' ?l = pl" by (simp add: pl_def)
  have fr: "?f' ?r + 1 + (if ?r = fst (eb_not_expr ?b1) then 2 else 0) = pr"
    using assms(6) by (simp add: pr_def)
  have e1: "eb_expression ?b1 = e" using assms(5) by simp
  have u1: "?b1\<lparr>eb_parentheses := par\<rparr> = b\<lparr>eb_parentheses := par, eb_expression := e\<rparr>"
    using assms(5) by (intro ExpressionBuilder.equality) simp_all
  have u2: "?b1\<lparr>eb_parentheses := par, eb_expression := E\<rparr>
      = b\<lparr>eb_parentheses := par, eb_expression := E\<rparr>" for E
    by simp
  have ins': "insert_parentheses ?b1 ?l ?r =
     Inr (b\<lparr>eb_parentheses := par, eb_expression :=
            (if pl = 0 \<and> pr \<ge> int (length e) - 1 then e
             else py_insert pl ''('' (py_insert pr '')'' e))\<rparr>)"
  proof (cases "pl = 0 \<and> pr \<ge> int (length e) - 1")
    case True
    then show ?thesis unfolding ins fl fr e1 using u1 by simp
  next
    case False
    then show ?thesis unfolding ins fl fr e1 by auto
  qed
  have "extra_group b rs = ebind (insert_parentheses ?b1 ?l ?r) (\<lambda>b2. Inr (b2, rs'))"
    unfolding extra_group_def using g a p assms(6) by (simp add: Let_def)
  then have x: "extra_group b rs =
     Inr (b\<lparr>eb_parentheses := par, eb_expression :=
            (if pl = 0 \<and> pr \<ge> int (length e) - 1 then e
             else py_insert pl ''('' (py_insert pr '')'' e))\<rparr>, rs')"
    unfolding ins' by simp
  have "(if pl = 0 \<and> pr \<ge> int (length e) - 1 then e
             else py_insert pl ''('' (py_insert pr '')'' e)) = e
    \<or> (if pl = 0 \<and> pr \<ge> int (length e) - 1 then e
             else py_insert pl ''('' (py_insert pr '')'' e))
       = py_insert pl ''('' (py_insert pr '')'' e)"
    by simp
  with c x show ?thesis
    unfolding pl_def pr_def by blast
qed

subsection \<open>Balance\<close>

lemma depth_scan_plain:
  "''('' \<notin> set xs \<Longrightarrow> '')'' \<notin> set xs \<Longrightarrow> depth_scan d xs = (d = 0)"
  by (induction xs) auto

lemma depth_scan_close:
  "0 \<le> d \<Longrightarrow> depth_scan d (b @ c) \<Longrightarrow> depth_scan (d + 1) (b @ '')'' # c)"
proof (induction b arbitrary: d)
  case Nil
  then show ?case by simp
next
  case (Cons t b)
  show ?case
  proof (cases "t = ''(''")
    case True
    with Cons.prems have "depth_scan (d + 1) (b @ c)" by simp
    with Cons.IH [of "d + 1"] Cons.prems(1) True show ?thesis by simp
  next
    case False
    show ?thesis
    proof (cases "t = '')''")
      case True
      with Cons.prems have "0 \<le> d - 1" "depth_scan (d - 1) (b @ c)" by simp_all
      with Cons.IH [of "d - 1"] True show ?thesis by simp
    next
      case f: False
      with False Cons.prems have "depth_scan d (b @ c)" by simp
      with Cons.IH [of d] Cons.prems(1) False f show ?thesis by simp
    qed
  qed
qed

lemma depth_scan_pair:
  "0 \<le> d \<Longrightarrow> depth_scan d (a @ b @ c) \<Longrightarrow> depth_scan d (a @ ''('' # b @ '')'' # c)"
proof (induction a arbitrary: d)
  case Nil
  then show ?case using depth_scan_close [of d b c] by simp
next
  case (Cons t a)
  show ?case
  proof (cases "t = ''(''")
    case True
    with Cons.prems have "depth_scan (d + 1) (a @ b @ c)" by simp
    with Cons.IH [of "d + 1"] Cons.prems(1) True show ?thesis by simp
  next
    case False
    show ?thesis
    proof (cases "t = '')''")
      case True
      with Cons.prems have "0 \<le> d - 1" "depth_scan (d - 1) (a @ b @ c)" by simp_all
      with Cons.IH [of "d - 1"] True show ?thesis by simp
    next
      case f: False
      with False Cons.prems have "depth_scan d (a @ b @ c)" by simp
      with Cons.IH [of d] Cons.prems(1) False f show ?thesis by simp
    qed
  qed
qed

lemma two_inserts:
  assumes "pl \<le> pr" "pr \<le> length e"
  shows "py_insert (int pl) x (py_insert (int pr) y e)
     = take pl e @ x # drop pl (take pr e) @ y # drop pr e"
proof -
  let ?e1 = "take pr e @ y # drop pr e"
  have 1: "py_insert (int pr) y e = ?e1" using assms(2) by (rule py_insert_nat)
  have "pl \<le> length ?e1" using assms by simp
  then have 2: "py_insert (int pl) x ?e1 = take pl ?e1 @ x # drop pl ?e1" by (rule py_insert_nat)
  have 3: "take pl ?e1 = take pl e" using assms by (simp add: min_def)
  have 4: "drop pl ?e1 = drop pl (take pr e) @ y # drop pr e" using assms by simp
  show ?thesis unfolding 1 2 3 4 by simp
qed

lemma balanced_two_inserts:
  assumes "balanced e" "pl \<le> pr" "pr \<le> length e"
  shows "balanced (py_insert (int pl) ''('' (py_insert (int pr) '')'' e))"
proof -
  have "take pl e @ drop pl (take pr e) @ drop pr e = e"
  proof -
    have "take pl e = take pl (take pr e)" using assms(2) by (simp add: min_def)
    then have "take pl e @ drop pl (take pr e) = take pl (take pr e) @ drop pl (take pr e)"
      by (simp only:)
    also have "\<dots> = take pr e" by (rule append_take_drop_id)
    finally have "(take pl e @ drop pl (take pr e)) @ drop pr e = take pr e @ drop pr e"
      by (simp only:)
    then show ?thesis by (simp only: append_assoc append_take_drop_id)
  qed
  with assms(1) have "depth_scan 0 (take pl e @ drop pl (take pr e) @ drop pr e)"
    by (simp add: balanced_def)
  then have "depth_scan 0 (take pl e @ ''('' # drop pl (take pr e) @ '')'' # drop pr e)"
    by (intro depth_scan_pair) simp_all
  then show ?thesis
    unfolding balanced_def two_inserts [OF assms(2,3)] .
qed

subsection \<open>The NOT and its parenthesis stay together\<close>

lemma block_insert:
  assumes "e = pre @ ''NOT'' # ''('' # nv # post"
    "''NOT'' \<notin> set pre" "''NOT'' \<notin> set post" "nv \<notin> set pre"
    "x \<noteq> ''NOT''" "x \<noteq> nv" "k \<le> length pre \<or> length pre + 3 \<le> k"
  shows "\<exists>pre' post'. take k e @ x # drop k e = pre' @ ''NOT'' # ''('' # nv # post'
     \<and> ''NOT'' \<notin> set pre' \<and> ''NOT'' \<notin> set post' \<and> nv \<notin> set pre'
     \<and> length pre' = (if k \<le> length pre then Suc (length pre) else length pre)"
proof (cases "k \<le> length pre")
  case True
  let ?pre = "take k pre @ x # drop k pre"
  have "take k e @ x # drop k e = ?pre @ ''NOT'' # ''('' # nv # post"
    using True assms(1) by simp
  moreover have "set ?pre \<subseteq> insert x (set pre)"
    using set_take_subset [of k pre] set_drop_subset [of k pre] by auto
  then have "''NOT'' \<notin> set ?pre" "nv \<notin> set ?pre"
    using assms(2,4,5,6) by auto
  moreover have "length ?pre = Suc (length pre)" using True by simp
  ultimately show ?thesis using True assms(3) by (intro exI [of _ ?pre] exI [of _ post]) simp
next
  case False
  with assms(7) obtain m where k: "k = length pre + 3 + m"
    using le_Suc_ex by blast
  let ?post = "take m post @ x # drop m post"
  have 3: "length pre + 3 + m = length (pre @ [''NOT'', ''('', nv]) + m" by simp
  have e: "e = (pre @ [''NOT'', ''('', nv]) @ post" using assms(1) by simp
  have "take k e @ x # drop k e = (pre @ [''NOT'', ''('', nv]) @ ?post"
    unfolding k 3 e by (simp only: take_append drop_append) simp
  then have "take k e @ x # drop k e = pre @ ''NOT'' # ''('' # nv # ?post" by simp
  moreover have "set ?post \<subseteq> insert x (set post)"
    using set_take_subset [of m post] set_drop_subset [of m post] by auto
  then have "''NOT'' \<notin> set ?post" using assms(3,5) by auto
  ultimately show ?thesis using False assms(2,4) by (intro exI [of _ pre] exI [of _ ?post]) simp
qed

lemma ix_append_left: "v \<in> set a \<Longrightarrow> ix (a @ b) v = ix a v"
proof -
  assume "v \<in> set a"
  from py_index_split [OF this]
  obtain pre post where p: "a = pre @ v # post" "v \<notin> set pre" "py_index a v = Some (length pre)"
    by (elim exE conjE)
  have "ix (pre @ v # (post @ b)) v = length pre" using p(2) by (rule ix_append)
  with p show ?thesis by (simp add: ix_def)
qed

lemma ix_append_right: "v \<notin> set a \<Longrightarrow> v \<in> set b \<Longrightarrow> ix (a @ b) v = length a + ix b v"
proof -
  assume a: "v \<notin> set a" and "v \<in> set b"
  from py_index_split [OF this(2)]
  obtain pre post where p: "b = pre @ v # post" "v \<notin> set pre" "py_index b v = Some (length pre)"
    by (elim exE conjE)
  have "ix ((a @ pre) @ v # post) v = length (a @ pre)"
    using a p(2) by (intro ix_append) simp
  with p show ?thesis by (simp add: ix_def)
qed

lemma block_positions:
  assumes "e = pre @ ''NOT'' # ''('' # nv # post"
    "''NOT'' \<notin> set pre" "nv \<notin> set pre" "nv \<noteq> ''NOT''" "nv \<noteq> ''(''"
  shows "ix e ''NOT'' = length pre" and "ix e nv = length pre + 2"
    and "v \<in> set e \<Longrightarrow> v \<noteq> ''NOT'' \<Longrightarrow> v \<noteq> ''('' \<Longrightarrow> v \<noteq> nv \<Longrightarrow>
         ix e v < length pre \<or> length pre + 3 \<le> ix e v"
proof -
  show "ix e ''NOT'' = length pre"
    unfolding assms(1) using assms(2) by (rule ix_append)
  have "ix ((pre @ [''NOT'', ''(''] ) @ nv # post) nv = length (pre @ [''NOT'', ''(''])"
    using assms(3,4,5) by (intro ix_append) simp
  then show "ix e nv = length pre + 2" unfolding assms(1) by simp
  show "ix e v < length pre \<or> length pre + 3 \<le> ix e v"
    if v: "v \<in> set e" "v \<noteq> ''NOT''" "v \<noteq> ''(''" "v \<noteq> nv"
  proof (cases "v \<in> set pre")
    case True
    have "ix (pre @ ''NOT'' # ''('' # nv # post) v = ix pre v"
      using True by (rule ix_append_left)
    with ix_less [OF True] show ?thesis unfolding assms(1) by simp
  next
    case False
    with v have a: "v \<notin> set (pre @ [''NOT'', ''('', nv])" and b: "v \<in> set post"
      unfolding assms(1) by auto
    have "ix ((pre @ [''NOT'', ''('', nv]) @ post) v = length (pre @ [''NOT'', ''('', nv]) + ix post v"
      using a b by (rule ix_append_right)
    then show ?thesis unfolding assms(1) by simp
  qed
qed

lemma well_formed_group:
  assumes wf: "well_formed vs nv e" and d: "distinct vs" and nv: "nv \<in> set vs"
    and res: "set vs \<inter> {''NOT'', ''('', '')''} = {}" and c: "Suc c < length vs"
  shows "well_formed vs nv
     (py_insert (if vs ! c = nv then int (ix e nv) - 2 else int (ix e (vs ! c))) ''(''
        (py_insert (int (ix e (vs ! Suc c)) + 1) '')'' e))"
proof -
  from wf obtain pre post where f: "filter (\<lambda>t. t \<in> set vs) e = vs" and bal: "balanced e"
    and e: "e = pre @ ''NOT'' # ''('' # nv # post"
    and n: "''NOT'' \<notin> set pre" "''NOT'' \<notin> set post" "nv \<notin> set pre"
    unfolding well_formed_def by blast
  let ?P = "length pre"
  let ?l = "vs ! c" and ?r = "vs ! Suc c"
  have mem: "?l \<in> set vs" "?r \<in> set vs" using c by simp_all
  have sub: "set vs \<subseteq> set e"
    using filter_is_subset [of "\<lambda>t. t \<in> set vs" e] f by simp
  have tok: "v \<noteq> ''NOT''" "v \<noteq> ''(''" "v \<noteq> '')''" if "v \<in> set vs" for v
    using res that by auto
  note pos = block_positions [OF e n(1,3) tok(1,2) [OF nv]]
  have lt: "ix e ?l < ix e ?r" using f d _ c by (rule ix_mono) simp
  define pl where "pl = (if ?l = nv then ?P else ix e ?l)"
  define pr where "pr = Suc (ix e ?r)"
  have ipl: "(if ?l = nv then int (ix e nv) - 2 else int (ix e ?l)) = int pl"
    by (simp add: pl_def pos(2))
  have ipr: "int (ix e ?r) + 1 = int pr" by (simp add: pr_def)
  have le: "pl \<le> pr" using lt pos(2) by (cases "?l = nv") (simp_all add: pl_def pr_def)
  have pre: "pr \<le> length e" using ix_less [of ?r e] mem(2) sub by (auto simp: pr_def)
  have cl: "pl \<le> ?P \<or> ?P + 3 \<le> pl"
  proof (cases "?l = nv")
    case True
    then show ?thesis by (simp add: pl_def)
  next
    case False
    with pos(3) [of ?l] mem(1) sub tok [OF mem(1)] show ?thesis
      by (auto simp: pl_def)
  qed
  have cr: "pr \<le> ?P \<or> ?P + 3 \<le> pr"
  proof (cases "?r = nv")
    case True
    then show ?thesis by (simp add: pr_def pos(2))
  next
    case False
    with pos(3) [of ?r] mem(2) sub tok [OF mem(2)] show ?thesis
      by (auto simp: pr_def)
  qed
  let ?e1 = "take pr e @ '')'' # drop pr e"
  from block_insert [OF e n(1,2,3) _ _ cr, of "'')''"] tok [OF nv]
  obtain pre1 post1 where e1: "?e1 = pre1 @ ''NOT'' # ''('' # nv # post1"
    and n1: "''NOT'' \<notin> set pre1" "''NOT'' \<notin> set post1" "nv \<notin> set pre1"
    and l1: "length pre1 = (if pr \<le> ?P then Suc ?P else ?P)"
    by auto
  have c1: "pl \<le> length pre1 \<or> length pre1 + 3 \<le> pl"
    using cl le l1 by (auto split: if_splits)
  let ?e2 = "take pl ?e1 @ ''('' # drop pl ?e1"
  from block_insert [OF e1 n1 _ _ c1, of "''(''"] tok [OF nv]
  obtain pre2 post2 where e2: "?e2 = pre2 @ ''NOT'' # ''('' # nv # post2"
    and n2: "''NOT'' \<notin> set pre2" "''NOT'' \<notin> set post2" "nv \<notin> set pre2"
    by auto
  let ?E = "py_insert (int pl) ''('' (py_insert (int pr) '')'' e)"
  have "py_insert (int pr) '')'' e = ?e1" using pre by (rule py_insert_nat)
  moreover have "py_insert (int pl) ''('' ?e1 = ?e2"
    using le pre by (intro py_insert_nat) simp
  ultimately have E: "?E = ?e2" by simp
  have fE: "filter (\<lambda>t. t \<in> set vs) ?E = vs"
    using f res by (simp add: filter_py_insert)
  have bE: "balanced ?E" using bal le pre by (rule balanced_two_inserts)
  have E2: "?E = pre2 @ ''NOT'' # ''('' # nv # post2" by (simp only: E e2)
  have blk: "\<exists>pre post. ?E = pre @ ''NOT'' # ''('' # nv # post
      \<and> ''NOT'' \<notin> set pre \<and> ''NOT'' \<notin> set post \<and> nv \<notin> set pre"
    using E2 n2 by blast
  have "well_formed vs nv ?E"
    unfolding well_formed_def using fE bE blk by (intro conjI)
  then show ?thesis unfolding ipl ipr .
qed

lemma extra_group_single:
  assumes "filter (\<lambda>t. t \<in> set vs) e = vs" "length vs = 1"
    "eb_variables b = vs" "eb_expression b = e" "fst (eb_not_expr b) \<in> set vs"
  shows "extra_group b rs = Inl IndexError"
proof -
  obtain v where vs: "vs = [v]" using assms(2) by (cases vs) auto
  have d: "distinct vs" by (simp add: vs)
  let ?f = "\<lambda>v. int (ix e v)"
  have g: "generate_indices_of_variables b = Inr (dictf ?f vs)"
    using assms(1) d assms(3,4) by (rule generate_indices_dictf)
  have a: "dict_add (dictf ?f vs) (fst (eb_not_expr b)) (- 2)
      = Inr (dictf (?f(fst (eb_not_expr b) := ?f (fst (eb_not_expr b)) + - 2)) vs)"
    using assms(5) d by (rule dict_add_dictf)
  have p: "generate_parentheses_positions (dictf h vs) rs = Inl IndexError" for h
    by (simp add: generate_parentheses_positions_def random_choice_def vs)
  show ?thesis
    unfolding extra_group_def using g a p by (simp add: Let_def)
qed

lemma extra_groups_well_formed:
  assumes "distinct vs" "nv \<in> set vs" "set vs \<inter> {''NOT'', ''('', '')''} = {}"
  shows "extra_groups k b rs = Inr (b', rs') \<Longrightarrow>
     eb_variables b = vs \<Longrightarrow> fst (eb_not_expr b) = nv \<Longrightarrow> well_formed vs nv (eb_expression b) \<Longrightarrow>
     well_formed vs nv (eb_expression b')"
proof (induction k arbitrary: b rs)
  case 0
  then show ?case by simp
next
  case (Suc k)
  let ?e = "eb_expression b"
  have f: "filter (\<lambda>t. t \<in> set vs) ?e = vs"
    using Suc.prems(4) by (simp add: well_formed_def)
  have ne: "vs \<noteq> []" using assms(2) by auto
  show ?case
  proof (cases "length vs = 1")
    case True
    have "extra_group b rs = Inl IndexError"
      using f True Suc.prems(2) _ _ by (rule extra_group_single) (simp_all add: Suc.prems(3) assms(2))
    with Suc.prems(1) show ?thesis by simp
  next
    case False
    with ne have two: "2 \<le> length vs"
      by (cases vs) (simp_all add: Suc_le_eq)
    from extra_group_step [OF f assms(1) two Suc.prems(2) refl Suc.prems(3) assms(2), of rs]
    obtain c rs1 par E where c: "Suc c < length vs"
      and x: "extra_group b rs = Inr (b\<lparr>eb_parentheses := par, eb_expression := E\<rparr>, rs1)"
      and E: "E = ?e \<or> E = py_insert (if vs ! c = nv then int (ix ?e nv) - 2 else int (ix ?e (vs ! c))) ''(''
                      (py_insert (int (ix ?e (vs ! Suc c)) + 1) '')'' ?e)"
      by blast
    let ?b1 = "b\<lparr>eb_parentheses := par, eb_expression := E\<rparr>"
    have wf: "well_formed vs nv E"
      using E Suc.prems(4) well_formed_group [OF Suc.prems(4) assms(1,2,3) c] by auto
    have "extra_groups k ?b1 rs1 = Inr (b', rs')"
      using Suc.prems(1) x by simp
    from Suc.IH [OF this] wf Suc.prems(2,3) show ?thesis by simp
  qed
qed

lemma extra_groups_total:
  assumes "distinct vs" "nv \<in> set vs" "set vs \<inter> {''NOT'', ''('', '')''} = {}" "2 \<le> length vs"
  shows "eb_variables b = vs \<Longrightarrow> fst (eb_not_expr b) = nv \<Longrightarrow> well_formed vs nv (eb_expression b) \<Longrightarrow>
     \<exists>b' rs'. extra_groups k b rs = Inr (b', rs')"
proof (induction k arbitrary: b rs)
  case 0
  then show ?case by simp
next
  case (Suc k)
  let ?e = "eb_expression b"
  have f: "filter (\<lambda>t. t \<in> set vs) ?e = vs"
    using Suc.prems(3) by (simp add: well_formed_def)
  from extra_group_step [OF f assms(1,4) Suc.prems(1) refl Suc.prems(2) assms(2), of rs]
  obtain c rs1 par E where c: "Suc c < length vs"
    and x: "extra_group b rs = Inr (b\<lparr>eb_parentheses := par, eb_expression := E\<rparr>, rs1)"
    and E: "E = ?e \<or> E = py_insert (if vs ! c = nv then int (ix ?e nv) - 2 else int (ix ?e (vs ! c))) ''(''
                    (py_insert (int (ix ?e (vs ! Suc c)) + 1) '')'' ?e)"
    by blast
  let ?b1 = "b\<lparr>eb_parentheses := par, eb_expression := E\<rparr>"
  have wf: "well_formed vs nv E"
    using E Suc.prems(3) well_formed_group [OF Suc.prems(3) assms(1,2,3) c] by auto
  have "\<exists>b' rs'. extra_groups k ?b1 rs1 = Inr (b', rs')"
    using wf Suc.prems(1,2) by (intro Suc.IH) simp_all
  with x show ?case by simp
qed

section \<open>From the backbone to the closed NOT\<close>

subsection \<open>The backbone\<close>

lemma fold_insert_filter:
  "\<forall>p \<in> set xs. \<not> Q (snd p) \<Longrightarrow>
   filter Q (fold (\<lambda>(i, operator) e. py_insert (g i) operator e) xs e0) = filter Q e0"
proof (induction xs arbitrary: e0)
  case Nil
  show ?case by simp
next
  case (Cons p xs)
  obtain i x where p: "p = (i, x)" by (cases p)
  have "\<not> Q x" using Cons.prems p by simp
  then have "filter Q (py_insert (g i) x e0) = filter Q e0" by (rule filter_py_insert)
  moreover have "\<forall>p \<in> set xs. \<not> Q (snd p)" using Cons.prems by simp
  ultimately show ?case using Cons.IH [of "py_insert (g i) x e0"] p by simp
qed

lemma fold_insert_set:
  "set (fold (\<lambda>(i, operator) e. py_insert (g i) operator e) xs e0) = set e0 \<union> snd ` set xs"
proof (induction xs arbitrary: e0)
  case Nil
  show ?case by simp
next
  case (Cons p xs)
  obtain i x where p: "p = (i, x)" by (cases p)
  show ?case using Cons.IH [of "py_insert (g i) x e0"] p by (simp add: set_py_insert)
qed

lemma insert_operators_props:
  assumes "set vs \<inter> set ops = {}"
  shows "filter (\<lambda>t. t \<in> set vs) (insert_operators vs ops) = vs"
    and "set (insert_operators vs ops) = set vs \<union> set ops"
proof -
  have s: "snd ` set (enumerate 0 ops) = set ops"
    using map_snd_enumerate [of 0 ops] by (metis set_map)
  have "\<forall>p \<in> set (enumerate 0 ops). \<not> snd p \<in> set vs"
    using assms s by auto
  from fold_insert_filter [OF this, of "\<lambda>i. 2 * int i + 1" vs]
  show "filter (\<lambda>t. t \<in> set vs) (insert_operators vs ops) = vs"
    by (simp add: insert_operators_def)
  show "set (insert_operators vs ops) = set vs \<union> set ops"
    unfolding insert_operators_def fold_insert_set s ..
qed

subsection \<open>Pushing the NOT\<close>

lemma push_not_block:
  assumes "nv \<in> set e1" "''NOT'' \<notin> set e1" "fst (eb_not_expr b) = nv"
  shows "\<exists>pre post. e1 = pre @ nv # post \<and> nv \<notin> set pre
     \<and> push_not b e1 = Inr (pre @ ''NOT'' # ''('' # nv # post)"
proof -
  from split_list_first [OF assms(1)]
  obtain pre post where e1: "e1 = pre @ nv # post" and n: "nv \<notin> set pre" by blast
  have np: "''NOT'' \<notin> set pre" using assms(2) e1 by simp
  have i: "index_of e1 nv = Inr (int (length pre))"
    using index_of_ix [OF assms(1)] ix_append [OF n, of post] e1 by simp
  have 1: "py_insert (int (length pre)) ''NOT'' e1 = pre @ ''NOT'' # nv # post"
    using py_insert_nat [of "length pre" e1 "''NOT''"] e1 by simp
  have k: "index_of (pre @ ''NOT'' # nv # post) ''NOT'' = Inr (int (length pre))"
    using index_of_ix [of "''NOT''" "pre @ ''NOT'' # nv # post"] ix_append [OF np, of "nv # post"]
    by simp
  have 2: "py_insert (int (length pre) + 1) ''('' (pre @ ''NOT'' # nv # post)
      = pre @ ''NOT'' # ''('' # nv # post"
    using py_insert_nat [of "Suc (length pre)" "pre @ ''NOT'' # nv # post" "''(''"]
    by (simp add: add.commute)
  have "push_not b e1 = Inr (pre @ ''NOT'' # ''('' # nv # post)"
    unfolding push_not_def assms(3) using i 1 k 2 by (simp add: Let_def)
  with e1 n show ?thesis by blast
qed

subsection \<open>Closing the NOT\<close>

lemma close_not_result:
  assumes e: "e = pre @ ''NOT'' # ''('' # nv # post" and np: "''NOT'' \<notin> set pre"
    and f: "filter (\<lambda>t. t \<in> set vs) e = vs" and d: "distinct vs"
    and b: "eb_variables b = vs" "eb_expression b = e" "fst (eb_not_expr b) = nv"
    and k: "k < length vs" "vs ! k = nv"
  shows "close_not b = Inr (b\<lparr>eb_parentheses := dictf (\<lambda>v. int (ix e v)) vs, eb_expression :=
      (if snd (eb_not_expr b) = 0 then
         (if Suc k = length vs then e @ ['')'']
          else take (Suc (ix e (vs ! Suc k))) e @ '')'' # drop (Suc (ix e (vs ! Suc k))) e)
       else take (length pre + 3) e @ '')'' # drop (length pre + 3) e)\<rparr>)"
proof -
  let ?f = "\<lambda>v. int (ix e v)"
  let ?par = "dictf ?f vs"
  have g: "generate_indices_of_variables b = Inr ?par"
    using f d b(1,2) by (rule generate_indices_dictf)
  have nv: "nv \<in> set vs" using k by auto
  have sub: "set vs \<subseteq> set e"
    using filter_is_subset [of "\<lambda>t. t \<in> set vs" e] f by simp
  show ?thesis
  proof (cases "snd (eb_not_expr b) = 0")
    case low: True
    have 1: "dict_get ?par nv = Inr (?f nv)" using nv by (rule dict_get_dictf)
    have 2: "index_of ?par (nv, ?f nv) = Inr (int k)"
      using index_of_dictf [OF d k(1), of ?f] k(2) by simp
    show ?thesis
    proof (cases "Suc k = length vs")
      case True
      then have "int k = int (length ?par) - 1" by auto
      then show ?thesis
        unfolding close_not_def using g 1 2 low True b by (simp add: Let_def)
    next
      case False
      with k(1) have sk: "Suc k < length vs" by simp
      let ?r = "vs ! Suc k"
      have r: "?r \<in> set vs" using sk by simp
      have ne: "int k \<noteq> int (length ?par) - 1" using False by auto
      have 3: "py_get ?par (int k + 1) = Inr (?r, ?f ?r)"
        using py_get_dictf [OF sk, of ?f] by (simp add: add.commute)
      have 4: "dict_get ?par ?r = Inr (?f ?r)" using r by (rule dict_get_dictf)
      have "Suc (ix e ?r) \<le> length e" using ix_less [of ?r e] r sub by auto
      from py_insert_nat [OF this, of "'')''"]
      have 5: "py_insert (?f ?r + 1) '')'' e
          = take (Suc (ix e ?r)) e @ '')'' # drop (Suc (ix e ?r)) e"
        by (simp add: add.commute)
      show ?thesis
        unfolding close_not_def using g 1 2 3 4 5 low False ne b by (simp add: Let_def)
    qed
  next
    case high: False
    have 1: "index_of e ''NOT'' = Inr (int (length pre))"
      using index_of_ix [of "''NOT''" e] ix_append [OF np, of "''('' # nv # post"] e by simp
    have "length pre + 3 \<le> length e" using e by simp
    from py_insert_nat [OF this, of "'')''"]
    have 2: "py_insert (int (length pre) + 3) '')'' e
        = take (length pre + 3) e @ '')'' # drop (length pre + 3) e"
      by (simp add: add.commute)
    show ?thesis
      unfolding close_not_def using g 1 2 high b by (simp add: Let_def)
  qed
qed

lemma well_formed_close:
  assumes e: "e = pre @ ''NOT'' # ''('' # nv # post"
    and n: "''NOT'' \<notin> set pre" "''NOT'' \<notin> set post" "nv \<notin> set pre"
    and p: "''('' \<notin> set pre" "'')'' \<notin> set pre" "''('' \<notin> set post" "'')'' \<notin> set post"
    and f: "filter (\<lambda>t. t \<in> set vs) e = vs" and nv: "nv \<in> set vs"
    and res: "set vs \<inter> {''NOT'', ''('', '')''} = {}"
    and q: "length pre + 3 \<le> q"
  shows "well_formed vs nv (take q e @ '')'' # drop q e)"
proof -
  let ?E = "take q e @ '')'' # drop q e"
  have tok: "nv \<noteq> ''NOT''" "nv \<noteq> ''(''" "nv \<noteq> '')''" using nv res by auto
  from block_insert [OF e n _ _ disjI2 [OF q], of "'')''"] tok
  have blk: "\<exists>pre' post'. ?E = pre' @ ''NOT'' # ''('' # nv # post'
      \<and> ''NOT'' \<notin> set pre' \<and> ''NOT'' \<notin> set post' \<and> nv \<notin> set pre'"
    by auto
  have "filter (\<lambda>t. t \<in> set vs) ?E
      = filter (\<lambda>t. t \<in> set vs) (take q e) @ filter (\<lambda>t. t \<in> set vs) (drop q e)"
    using res by auto
  also have "\<dots> = filter (\<lambda>t. t \<in> set vs) (take q e @ drop q e)" by (simp only: filter_append)
  also have "\<dots> = vs" using f by (simp only: append_take_drop_id)
  finally have fE: "filter (\<lambda>t. t \<in> set vs) ?E = vs" .
  obtain m where m: "q = length pre + 3 + m" using q le_Suc_ex by blast
  have 3: "length pre + 3 + m = length (pre @ [''NOT'', ''('', nv]) + m" by simp
  have e': "e = (pre @ [''NOT'', ''('', nv]) @ post" using e by simp
  have "?E = (pre @ [''NOT'', ''('', nv]) @ take m post @ '')'' # drop m post"
    unfolding m 3 e' by (simp only: take_append drop_append) simp
  then have E: "?E = (pre @ [''NOT'']) @ ''('' # (nv # take m post) @ '')'' # drop m post"
    by simp
  have "set (take m post) \<subseteq> set post" "set (drop m post) \<subseteq> set post"
    by (rule set_take_subset, rule set_drop_subset)
  then have "''('' \<notin> set ((pre @ [''NOT'']) @ (nv # take m post) @ drop m post)"
    "'')'' \<notin> set ((pre @ [''NOT'']) @ (nv # take m post) @ drop m post)"
    using p tok by auto
  then have "depth_scan 0 ((pre @ [''NOT'']) @ (nv # take m post) @ drop m post)"
    using depth_scan_plain [of "(pre @ [''NOT'']) @ (nv # take m post) @ drop m post" 0]
    by blast
  then have "depth_scan 0 ((pre @ [''NOT'']) @ ''('' # (nv # take m post) @ '')'' # drop m post)"
    by (intro depth_scan_pair) simp_all
  then have bE: "balanced ?E" unfolding balanced_def E .
  show ?thesis unfolding well_formed_def using fE bE blk by (intro conjI)
qed

lemma init_props:
  assumes "ExpressionBuilder_init vs0 ops0 pc rs = Inr (b, rs')"
  shows "mset (eb_variables b) = mset vs0" "mset (eb_operators b) = mset ops0"
    "fst (eb_not_expr b) \<in> set (eb_variables b)" "eb_paren_count b = pc"
    "length (eb_variables b) = Suc (length (eb_operators b))"
proof -
  obtain vs' rs1 where v: "generate_variables_order vs0 rs = (vs', rs1)"
    by (cases "generate_variables_order vs0 rs")
  obtain ops' rs2 where p: "generate_operator_order ops0 rs1 = (ops', rs2)"
    by (cases "generate_operator_order ops0 rs1")
  have len: "int (length vs0) = int (length ops0) + 1"
    using assms by (auto simp: ExpressionBuilder_init_def split: if_splits)
  have mv: "mset vs' = mset vs0"
    using v random_shuffle_mset [of vs0 rs] by (simp add: generate_variables_order_def)
  have mo: "mset ops' = mset ops0"
    using p random_shuffle_mset [of ops0 rs1] by (simp add: generate_operator_order_def)
  from mv have lv: "length vs' = length vs0" by (metis size_mset)
  from mo have lo: "length ops' = length ops0" by (metis size_mset)
  from lv len have "vs' \<noteq> []" by auto
  from random_choice_ok [OF this, of rs2]
  obtain x rs3 where c: "random_choice vs' rs2 = Inr (x, rs3)" "x \<in> set vs'" by blast
  obtain q rs4 where q: "random_randint 0 1 rs3 = (q, rs4)"
    by (cases "random_randint 0 1 rs3")
  have "ExpressionBuilder_init vs0 ops0 pc rs =
      Inr (\<lparr>eb_paren_count = pc, eb_variables = vs', eb_operators = ops',
            eb_not_expr = (x, q), eb_parentheses = [], eb_expression = []\<rparr>, rs4)"
    using len v p c q by (simp add: ExpressionBuilder_init_def generate_not_subexpression_def)
  with assms have b: "b = \<lparr>eb_paren_count = pc, eb_variables = vs', eb_operators = ops',
            eb_not_expr = (x, q), eb_parentheses = [], eb_expression = []\<rparr>"
    by simp
  show "mset (eb_variables b) = mset vs0" "mset (eb_operators b) = mset ops0"
    "fst (eb_not_expr b) \<in> set (eb_variables b)" "eb_paren_count b = pc"
    using mv mo c(2) by (simp_all add: b)
  show "length (eb_variables b) = Suc (length (eb_operators b))"
    using lv lo len by (simp add: b)
qed

lemma valid_names_mset:
  "valid_names vs ops \<Longrightarrow> mset vs' = mset vs \<Longrightarrow> mset ops' = mset ops \<Longrightarrow> valid_names vs' ops'"
  unfolding valid_names_def
  by (metis mset_eq_imp_distinct_iff mset_eq_setD)

text \<open>The builder after lines 88-114, for every outcome of the precedence flag.\<close>

lemma build_not_closed:
  assumes v: "valid_names vs ops" and b: "eb_variables b = vs" "eb_operators b = ops"
    "fst (eb_not_expr b) = nv" and k: "k < length vs" "vs ! k = nv"
  shows "\<exists>e b1. push_not b (insert_operators vs ops) = Inr e
     \<and> close_not (b\<lparr>eb_expression := e\<rparr>) = Inr b1
     \<and> eb_variables b1 = vs \<and> eb_not_expr b1 = eb_not_expr b
     \<and> eb_paren_count b1 = eb_paren_count b
     \<and> well_formed vs nv (eb_expression b1)
     \<and> filter (\<lambda>t. t \<in> set vs) e = vs
     \<and> eb_expression b1 =
        (if snd (eb_not_expr b) = 0 then
           (if Suc k = length vs then e @ ['')'']
            else take (Suc (ix e (vs ! Suc k))) e @ '')'' # drop (Suc (ix e (vs ! Suc k))) e)
         else take (Suc (ix e nv)) e @ '')'' # drop (Suc (ix e nv)) e)
     \<and> (\<exists>pre post. insert_operators vs ops = pre @ nv # post \<and> nv \<notin> set pre
           \<and> e = pre @ ''NOT'' # ''('' # nv # post)"
proof -
  have d: "distinct vs" and o: "set ops \<subseteq> {''AND'', ''OR''}"
    and r: "set vs \<inter> {''AND'', ''OR'', ''NOT'', ''('', '')''} = {}"
    using v by (simp_all add: valid_names_def)
  have res: "set vs \<inter> {''NOT'', ''('', '')''} = {}" using r by auto
  have nv: "nv \<in> set vs" using k by auto
  have tok: "nv \<noteq> ''NOT''" "nv \<noteq> ''(''" "nv \<noteq> '')''" using nv res by auto
  let ?e1 = "insert_operators vs ops"
  have dis: "set vs \<inter> set ops = {}" using o r by auto
  note io = insert_operators_props [OF dis]
  have t1: "''NOT'' \<notin> set ?e1" "''('' \<notin> set ?e1" "'')'' \<notin> set ?e1"
    unfolding io(2) using o res by auto
  have "nv \<in> set ?e1" unfolding io(2) using nv by simp
  from push_not_block [OF this t1(1) b(3)]
  obtain pre post where e1: "?e1 = pre @ nv # post" and np: "nv \<notin> set pre"
    and pn: "push_not b ?e1 = Inr (pre @ ''NOT'' # ''('' # nv # post)"
    by blast
  define e where "e = pre @ ''NOT'' # ''('' # nv # post"
  have e: "e = pre @ ''NOT'' # ''('' # nv # post" by (simp add: e_def)
  have n: "''NOT'' \<notin> set pre" "''NOT'' \<notin> set post"
    and p: "''('' \<notin> set pre" "'')'' \<notin> set pre" "''('' \<notin> set post" "'')'' \<notin> set post"
    using t1 e1 by auto
  have f: "filter (\<lambda>t. t \<in> set vs) e = vs"
  proof -
    have "filter (\<lambda>t. t \<in> set vs) e = filter (\<lambda>t. t \<in> set vs) (pre @ nv # post)"
      unfolding e using res by auto
    then show ?thesis using io(1) e1 by simp
  qed
  let ?b0 = "b\<lparr>eb_expression := e\<rparr>"
  let ?X = "if snd (eb_not_expr b) = 0 then
         (if Suc k = length vs then e @ ['')'']
          else take (Suc (ix e (vs ! Suc k))) e @ '')'' # drop (Suc (ix e (vs ! Suc k))) e)
       else take (length pre + 3) e @ '')'' # drop (length pre + 3) e"
  have cn: "close_not ?b0 = Inr (?b0\<lparr>eb_parentheses := dictf (\<lambda>v. int (ix e v)) vs,
      eb_expression := ?X\<rparr>)"
    using close_not_result [OF e n(1) f d _ _ _ k, of ?b0] b by simp
  note pos = block_positions [OF e n(1) np tok(1,2)]
  have wf: "well_formed vs nv ?X"
  proof (cases "snd (eb_not_expr b) = 0")
    case low: True
    show ?thesis
    proof (cases "Suc k = length vs")
      case True
      have "length pre + 3 \<le> length e" unfolding e by simp
      from well_formed_close [OF e n np p f nv res this] low True show ?thesis by simp
    next
      case False
      with k(1) have sk: "Suc k < length vs" by simp
      have "ix e (vs ! k) < ix e (vs ! Suc k)" using f d _ sk by (rule ix_mono) simp
      then have "length pre + 3 \<le> Suc (ix e (vs ! Suc k))" using pos(2) k(2) by simp
      from well_formed_close [OF e n np p f nv res this] low False show ?thesis by simp
    qed
  next
    case False
    have "length pre + 3 \<le> length pre + 3" by simp
    from well_formed_close [OF e n np p f nv res this] False show ?thesis by simp
  qed
  have X: "?X = (if snd (eb_not_expr b) = 0 then
           (if Suc k = length vs then e @ ['')'']
            else take (Suc (ix e (vs ! Suc k))) e @ '')'' # drop (Suc (ix e (vs ! Suc k))) e)
         else take (Suc (ix e nv)) e @ '')'' # drop (Suc (ix e nv)) e)"
  proof -
    have "length pre + 3 = Suc (ix e nv)" using pos(2) by simp
    then show ?thesis by (simp only:)
  qed
  let ?b1 = "?b0\<lparr>eb_parentheses := dictf (\<lambda>v. int (ix e v)) vs, eb_expression := ?X\<rparr>"
  have c1: "push_not b ?e1 = Inr e" using pn by (simp add: e)
  have c2: "eb_variables ?b1 = vs" "eb_not_expr ?b1 = eb_not_expr b"
    "eb_paren_count ?b1 = eb_paren_count b"
    using b(1) by simp_all
  have c3: "well_formed vs nv (eb_expression ?b1)" using wf by simp
  have c4: "eb_expression ?b1 = (if snd (eb_not_expr b) = 0 then
           (if Suc k = length vs then e @ ['')'']
            else take (Suc (ix e (vs ! Suc k))) e @ '')'' # drop (Suc (ix e (vs ! Suc k))) e)
         else take (Suc (ix e nv)) e @ '')'' # drop (Suc (ix e nv)) e)"
    using X by simp
  have c5: "\<exists>pre post. insert_operators vs ops = pre @ nv # post \<and> nv \<notin> set pre
           \<and> e = pre @ ''NOT'' # ''('' # nv # post"
    using e1 np e by (intro exI [of _ pre] exI [of _ post] conjI)
  have "push_not b ?e1 = Inr e \<and> close_not ?b0 = Inr ?b1
     \<and> eb_variables ?b1 = vs \<and> eb_not_expr ?b1 = eb_not_expr b
     \<and> eb_paren_count ?b1 = eb_paren_count b
     \<and> well_formed vs nv (eb_expression ?b1)
     \<and> filter (\<lambda>t. t \<in> set vs) e = vs
     \<and> eb_expression ?b1 =
        (if snd (eb_not_expr b) = 0 then
           (if Suc k = length vs then e @ ['')'']
            else take (Suc (ix e (vs ! Suc k))) e @ '')'' # drop (Suc (ix e (vs ! Suc k))) e)
         else take (Suc (ix e nv)) e @ '')'' # drop (Suc (ix e nv)) e)
     \<and> (\<exists>pre post. insert_operators vs ops = pre @ nv # post \<and> nv \<notin> set pre
           \<and> e = pre @ ''NOT'' # ''('' # nv # post)"
    using c1 cn c2 c3 f c4 c5 by (intro conjI)
  then show ?thesis by (intro exI [of _ e] exI [of _ ?b1])
qed





section \<open>The token sequence that build leaves\<close>

lemma build_unfold:
  assumes "push_not b (insert_operators (eb_variables b) (eb_operators b)) = Inr e"
    "close_not (b\<lparr>eb_expression := e\<rparr>) = Inr b1"
  shows "build b rs = extra_groups (nat (eb_paren_count b1)) b1 rs"
  using assms by (simp add: build_def)





text \<open>
  With at least two variables, or without extra groups, \<open>build\<close> returns and the
  parentheses of its token sequence are balanced.
\<close>

lemma build_balanced:
  assumes "valid_names vs ops" "ExpressionBuilder_init vs ops pc rs = Inr (b, rs1)"
    "2 \<le> length vs \<or> pc \<le> 0"
  shows "\<exists>b' rs2. build b rs1 = Inr (b', rs2) \<and> balanced (eb_expression b')"
proof -
  note ip = init_props [OF assms(2)]
  let ?vs = "eb_variables b" and ?nv = "fst (eb_not_expr b)"
  have v: "valid_names ?vs (eb_operators b)"
    using assms(1) ip(1,2) by (rule valid_names_mset)
  have nv: "?nv \<in> set ?vs" by (rule ip(3))
  then obtain k where k: "k < length ?vs" "?vs ! k = ?nv"
    by (auto simp: in_set_conv_nth)
  from build_not_closed [OF v refl refl refl k]
  obtain e b1 where pn: "push_not b (insert_operators ?vs (eb_operators b)) = Inr e"
    and cn: "close_not (b\<lparr>eb_expression := e\<rparr>) = Inr b1"
    and b1: "eb_variables b1 = ?vs" "eb_not_expr b1 = eb_not_expr b"
      "eb_paren_count b1 = eb_paren_count b"
    and wf: "well_formed ?vs ?nv (eb_expression b1)"
    by (elim exE conjE)
  have bu: "build b rs1 = extra_groups (nat (eb_paren_count b1)) b1 rs1"
    using pn cn by (rule build_unfold)
  have d: "distinct ?vs" and res: "set ?vs \<inter> {''NOT'', ''('', '')''} = {}"
    using v by (auto simp: valid_names_def)
  have len: "length ?vs = length vs" using ip(1) by (metis size_mset)
  have "\<exists>b' rs2. extra_groups (nat (eb_paren_count b1)) b1 rs1 = Inr (b', rs2)"
  proof (cases "2 \<le> length vs")
    case True
    then have "2 \<le> length ?vs" using len by simp
    from extra_groups_total [OF d nv res this b1(1) _ wf] b1(2) show ?thesis by simp
  next
    case False
    with assms(3) have "nat (eb_paren_count b1) = 0" using b1(3) ip(4) by simp
    then show ?thesis by simp
  qed
  then obtain b' rs2 where x: "extra_groups (nat (eb_paren_count b1)) b1 rs1 = Inr (b', rs2)"
    by blast
  from extra_groups_well_formed [OF d nv res x b1(1) _ wf] b1(2)
  have "well_formed ?vs ?nv (eb_expression b')" by simp
  then have "balanced (eb_expression b')" by (simp add: well_formed_def)
  with x bu show ?thesis by simp
qed

subsection \<open>The backbone in closed form\<close>

lemma fold_insert_interleave:
  "length xs = Suc (length ps) \<Longrightarrow> length W = 2 * m \<Longrightarrow>
   fold (\<lambda>(i, operator) e. py_insert (2 * int i + 1) operator e) (enumerate m ps) (W @ xs)
     = W @ interleave xs ps"
proof (induction ps arbitrary: xs W m)
  case Nil
  then show ?case by simp
next
  case (Cons p ps)
  then obtain x xs' where xs: "xs = x # xs'" by (cases xs) auto
  have "py_insert (int (Suc (2 * m))) p (W @ xs) = take (Suc (2 * m)) (W @ xs) @ p # drop (Suc (2 * m)) (W @ xs)"
    using Cons.prems xs by (intro py_insert_nat) simp
  then have 1: "py_insert (2 * int m + 1) p (W @ xs) = (W @ [x, p]) @ xs'"
    using Cons.prems(2) xs by (simp add: add.commute)
  have "fold (\<lambda>(i, operator) e. py_insert (2 * int i + 1) operator e) (enumerate (Suc m) ps)
      ((W @ [x, p]) @ xs') = (W @ [x, p]) @ interleave xs' ps"
    using Cons.prems xs by (intro Cons.IH) simp_all
  then show ?case using 1 xs by simp
qed

lemma insert_operators_interleave:
  "length vs = Suc (length ops) \<Longrightarrow> insert_operators vs ops = interleave vs ops"
  using fold_insert_interleave [of vs ops "[]" 0] by (simp add: insert_operators_def)

lemma interleave_length:
  "length xs = Suc (length ps) \<Longrightarrow> length (interleave xs ps) = 2 * length ps + 1"
  by (induction xs ps rule: interleave.induct) auto

lemma interleave_nth:
  "length xs = Suc (length ps) \<Longrightarrow>
   (i < length xs \<longrightarrow> interleave xs ps ! (2 * i) = xs ! i)
   \<and> (i < length ps \<longrightarrow> interleave xs ps ! (2 * i + 1) = ps ! i)"
proof (induction ps arbitrary: xs i)
  case Nil
  then show ?case by (cases xs) simp_all
next
  case (Cons p ps)
  then obtain v vs where xs: "xs = v # vs" by (cases xs) auto
  with Cons.prems have l: "length vs = Suc (length ps)" by simp
  show ?case
  proof (cases i)
    case 0
    then show ?thesis by (simp add: xs)
  next
    case (Suc j)
    with Cons.IH [OF l, of j] show ?thesis by (simp add: xs)
  qed
qed

lemma interleave_take_no_var:
  assumes "length xs = Suc (length ps)" "distinct xs" "set xs \<inter> set ps = {}"
    "k \<le> j" "j < length xs"
  shows "xs ! j \<notin> set (take (2 * k) (interleave xs ps))"
proof
  let ?c = "interleave xs ps"
  assume "xs ! j \<in> set (take (2 * k) ?c)"
  then obtain m where m: "m < length (take (2 * k) ?c)" "take (2 * k) ?c ! m = xs ! j"
    by (auto simp: in_set_conv_nth)
  then have mk: "m < 2 * k" and ml: "m < length ?c" and c: "?c ! m = xs ! j" by simp_all
  have len: "length ?c = 2 * length ps + 1" using assms(1) by (rule interleave_length)
  show False
  proof (cases "even m")
    case True
    then obtain i where i: "m = 2 * i" by (auto elim: evenE)
    with mk assms(4,5) have ij: "i < j" "i < length xs" by simp_all
    with interleave_nth [OF assms(1), of i] i c have "xs ! i = xs ! j" by simp
    with assms(2,5) ij show False by (simp add: nth_eq_iff_index_eq)
  next
    case False
    then obtain i where i: "m = 2 * i + 1" by (auto elim: oddE)
    with ml len have il: "i < length ps" by simp
    with interleave_nth [OF assms(1), of i] i c have "ps ! i = xs ! j" by simp
    moreover have "ps ! i \<in> set ps" using il by simp
    moreover have "xs ! j \<in> set xs" using assms(5) by simp
    ultimately show False using assms(3) by auto
  qed
qed

lemma interleave_drop:
  assumes "length xs = Suc (length ps)" "Suc k < length xs"
  shows "drop (2 * k) (interleave xs ps)
     = xs ! k # ps ! k # xs ! Suc k # drop (2 * k + 3) (interleave xs ps)"
proof -
  let ?c = "interleave xs ps"
  have len: "length ?c = 2 * length ps + 1" using assms(1) by (rule interleave_length)
  have kp: "k < length ps" "k < length xs" using assms by simp_all
  have n0: "?c ! (2 * k) = xs ! k" using interleave_nth [OF assms(1), of k] kp by simp
  have n1: "?c ! (2 * k + 1) = ps ! k" using interleave_nth [OF assms(1), of k] kp by simp
  have n2: "?c ! (2 * k + 2) = xs ! Suc k"
    using interleave_nth [OF assms(1), of "Suc k"] assms(2) by simp
  have "drop (2 * k) ?c = ?c ! (2 * k) # drop (Suc (2 * k)) ?c"
    using len kp by (intro Cons_nth_drop_Suc [symmetric]) simp
  also have "drop (Suc (2 * k)) ?c = ?c ! (2 * k + 1) # drop (Suc (Suc (2 * k))) ?c"
    using len kp Cons_nth_drop_Suc [of "Suc (2 * k)" ?c] by simp
  also have "drop (Suc (Suc (2 * k))) ?c = ?c ! (2 * k + 2) # drop (2 * k + 3) ?c"
    using len kp Cons_nth_drop_Suc [of "Suc (Suc (2 * k))" ?c] by (simp add: numeral_3_eq_3)
  finally show ?thesis unfolding n0 n1 n2 .
qed

lemma interleave_drop_last:
  assumes "length xs = Suc (length ps)" "Suc k = length xs"
  shows "drop (2 * k) (interleave xs ps) = [xs ! k]"
proof -
  let ?c = "interleave xs ps"
  have len: "length ?c = 2 * length ps + 1" using assms(1) by (rule interleave_length)
  have k: "k = length ps" using assms by simp
  have n0: "?c ! (2 * k) = xs ! k" using interleave_nth [OF assms(1), of k] assms(2) by simp
  have "drop (2 * k) ?c = ?c ! (2 * k) # drop (Suc (2 * k)) ?c"
    using len k by (intro Cons_nth_drop_Suc [symmetric]) simp
  then show ?thesis using len k n0 by simp
qed

lemma split_first_unique:
  assumes "xs = a @ x # b" "x \<notin> set a" "xs = a' @ x # b'" "x \<notin> set a'"
  shows "a = a' \<and> b = b'"
proof -
  have "length a = ix xs x" using ix_append [OF assms(2), of b] assms(1) by simp
  moreover have "length a' = ix xs x" using ix_append [OF assms(4), of b'] assms(3) by simp
  ultimately have "length a = length a'" by simp
  with assms(1,3) show ?thesis by (metis append_eq_append_conv list.inject)
qed

lemma insert_after:
  "take (Suc (length A)) (A @ x # r) @ y # drop (Suc (length A)) (A @ x # r) = A @ x # y # r"
  by simp

subsection \<open>The low-precedence NOT\<close>

text \<open>
  Claim C4, as the code has it, for the names of the data model. Let \<open>c\<close> be the backbone
  and let the negated variable be the \<open>k\<close>-th variable of the shuffled order, so that it
  stands at index \<open>2 * k\<close> of \<open>c\<close>. \<open>NOT\<close> and \<open>(\<close> are inserted in front of it. With the
  precedence flag low, the closing parenthesis is inserted immediately after the next
  variable (at its index plus one): the tokens from index \<open>2 * k\<close> on become \<open>NOT\<close>, \<open>(\<close>,
  the negated variable, the operator after it, the next variable, \<open>)\<close>, and the rest of
  the backbone follows unchanged. When the negated variable is the last one, the
  parenthesis is appended at the end: the sequence ends with \<open>NOT\<close>, \<open>(\<close>, the negated
  variable, \<open>)\<close>. The extra groups of \<open>build\<close> are then inserted into this sequence.
\<close>

theorem close_not_low:
  assumes "valid_names vs ops" "ExpressionBuilder_init vs ops pc rs = Inr (b, rs1)"
    "snd (eb_not_expr b) = 0" "k < length (eb_variables b)"
    "eb_variables b ! k = fst (eb_not_expr b)"
    "c = insert_operators (eb_variables b) (eb_operators b)"
  shows "\<exists>b1. push_not b c = Inr (take (2 * k) c @ ''NOT'' # ''('' # drop (2 * k) c)
     \<and> close_not (b\<lparr>eb_expression := take (2 * k) c @ ''NOT'' # ''('' # drop (2 * k) c\<rparr>)
         = Inr b1
     \<and> build b rs1 = extra_groups (nat (eb_paren_count b)) b1 rs1
     \<and> (if Suc k = length (eb_variables b) then
           drop (2 * k) c = [eb_variables b ! k]
           \<and> eb_expression b1 = take (2 * k) c @ [''NOT'', ''('', eb_variables b ! k, '')'']
         else
           drop (2 * k) c = eb_variables b ! k # eb_operators b ! k # eb_variables b ! Suc k
                              # drop (2 * k + 3) c
           \<and> eb_expression b1 = take (2 * k) c
               @ [''NOT'', ''('', eb_variables b ! k, eb_operators b ! k,
                  eb_variables b ! Suc k, '')'']
               @ drop (2 * k + 3) c)"
proof -
  note ip = init_props [OF assms(2)]
  let ?vs = "eb_variables b" and ?ops = "eb_operators b" and ?nv = "fst (eb_not_expr b)"
  have v: "valid_names ?vs ?ops"
    using assms(1) ip(1,2) by (rule valid_names_mset)
  have d: "distinct ?vs" and o: "set ?ops \<subseteq> {''AND'', ''OR''}"
    and r: "set ?vs \<inter> {''AND'', ''OR'', ''NOT'', ''('', '')''} = {}"
    using v by (simp_all add: valid_names_def)
  have dis: "set ?vs \<inter> set ?ops = {}" using o r by auto
  have c: "c = interleave ?vs ?ops"
    unfolding assms(6) using ip(5) by (rule insert_operators_interleave)
  let ?p = "take (2 * k) c"
  from build_not_closed [OF v refl refl refl assms(4,5)]
  obtain e b1 pre post where pn: "push_not b (insert_operators ?vs ?ops) = Inr e"
    and cn: "close_not (b\<lparr>eb_expression := e\<rparr>) = Inr b1"
    and pc: "eb_paren_count b1 = eb_paren_count b"
    and X: "eb_expression b1 =
        (if snd (eb_not_expr b) = 0 then
           (if Suc k = length ?vs then e @ ['')'']
            else take (Suc (ix e (?vs ! Suc k))) e @ '')'' # drop (Suc (ix e (?vs ! Suc k))) e)
         else take (Suc (ix e ?nv)) e @ '')'' # drop (Suc (ix e ?nv)) e)"
    and s: "insert_operators ?vs ?ops = pre @ ?nv # post" "?nv \<notin> set pre"
    and e: "e = pre @ ''NOT'' # ''('' # ?nv # post"
    by (elim exE conjE)
  have bu: "build b rs1 = extra_groups (nat (eb_paren_count b)) b1 rs1"
    using build_unfold [OF pn cn, of rs1] pc by simp
  have np: "?vs ! k \<notin> set ?p"
    unfolding c using ip(5) d dis _ assms(4) by (rule interleave_take_no_var) simp
  have c2: "c = pre @ ?vs ! k # post" using s(1) assms(5,6) by simp
  have np2: "?vs ! k \<notin> set pre" using s(2) assms(5) by simp
  have td: "c = ?p @ drop (2 * k) c" by simp
  show ?thesis
  proof (cases "Suc k = length ?vs")
    case True
    have dr: "drop (2 * k) c = [?vs ! k]"
      unfolding c using ip(5) True by (rule interleave_drop_last)
    have c1: "c = ?p @ ?vs ! k # []" using td by (simp only: dr)
    from split_first_unique [OF c2 np2 c1 np] have "pre = ?p \<and> post = []" .
    then have e': "e = ?p @ ''NOT'' # ''('' # drop (2 * k) c"
      using e dr assms(5) by simp
    have "eb_expression b1 = ?p @ [''NOT'', ''('', ?vs ! k, '')'']"
      using X assms(3) True e' dr by simp
    with pn cn bu dr True show ?thesis unfolding e' assms(6) [symmetric] by simp
  next
    case False
    with assms(4) have sk: "Suc k < length ?vs" by simp
    let ?r = "drop (2 * k + 3) c"
    have dr: "drop (2 * k) c = ?vs ! k # ?ops ! k # ?vs ! Suc k # ?r"
      unfolding c using ip(5) sk by (rule interleave_drop)
    have c1: "c = ?p @ ?vs ! k # (?ops ! k # ?vs ! Suc k # ?r)" using td by (simp only: dr)
    from split_first_unique [OF c2 np2 c1 np]
    have "pre = ?p \<and> post = ?ops ! k # ?vs ! Suc k # ?r" .
    then have e': "e = ?p @ ''NOT'' # ''('' # drop (2 * k) c"
      and e2: "e = (?p @ [''NOT'', ''('', ?vs ! k, ?ops ! k]) @ ?vs ! Suc k # ?r"
      using e dr assms(5) by simp_all
    have n1: "?vs ! Suc k \<notin> set ?p"
      unfolding c using ip(5) d dis _ sk by (rule interleave_take_no_var) simp
    have kp: "k < length ?ops" using sk ip(5) by simp
    have m: "?vs ! Suc k \<in> set ?vs" using sk by (rule nth_mem)
    have mo: "?ops ! k \<in> set ?ops" using kp by (rule nth_mem)
    have n2: "?vs ! Suc k \<noteq> ''NOT''" "?vs ! Suc k \<noteq> ''(''"
      using r m by auto
    have n3: "?vs ! Suc k \<noteq> ?vs ! k"
      using d sk by (simp add: nth_eq_iff_index_eq)
    have n4: "?vs ! Suc k \<noteq> ?ops ! k"
      using dis m mo by auto
    have "?vs ! Suc k \<notin> set (?p @ [''NOT'', ''('', ?vs ! k, ?ops ! k])"
      using n1 n2 n3 n4 by simp
    from ix_append [OF this, of ?r]
    have i: "ix e (?vs ! Suc k) = length (?p @ [''NOT'', ''('', ?vs ! k, ?ops ! k])"
      unfolding e2 .
    have "eb_expression b1 = take (Suc (ix e (?vs ! Suc k))) e @ '')'' # drop (Suc (ix e (?vs ! Suc k))) e"
      using X assms(3) False by simp
    also have "\<dots> = (?p @ [''NOT'', ''('', ?vs ! k, ?ops ! k]) @ ?vs ! Suc k # '')'' # ?r"
      unfolding i by (subst (1 2) e2) (rule insert_after)
    finally have "eb_expression b1 = ?p @ [''NOT'', ''('', ?vs ! k, ?ops ! k, ?vs ! Suc k, '')''] @ ?r"
      by simp
    with pn cn bu dr False show ?thesis unfolding e' assms(6) [symmetric] by simp
  qed
qed

theorem close_not_low_witness:
  "valid_names [''A'', ''B'', ''C''] [''AND'', ''OR'']
   \<and> ExpressionBuilder_init [''A'', ''B'', ''C''] [''AND'', ''OR''] 0 [2, 1, 1, 0, 0] =
       Inr (\<lparr>eb_paren_count = 0, eb_variables = [''A'', ''B'', ''C''],
             eb_operators = [''AND'', ''OR''], eb_not_expr = (''A'', 0),
             eb_parentheses = [], eb_expression = []\<rparr>, [])
   \<and> insert_operators [''A'', ''B'', ''C''] [''AND'', ''OR'']
       = [''A'', ''AND'', ''B'', ''OR'', ''C'']
   \<and> (\<exists>b1. push_not \<lparr>eb_paren_count = 0, eb_variables = [''A'', ''B'', ''C''],
             eb_operators = [''AND'', ''OR''], eb_not_expr = (''A'', 0),
             eb_parentheses = [], eb_expression = []\<rparr>
            [''A'', ''AND'', ''B'', ''OR'', ''C'']
          = Inr [''NOT'', ''('', ''A'', ''AND'', ''B'', ''OR'', ''C'']
        \<and> close_not \<lparr>eb_paren_count = 0, eb_variables = [''A'', ''B'', ''C''],
             eb_operators = [''AND'', ''OR''], eb_not_expr = (''A'', 0),
             eb_parentheses = [],
             eb_expression = [''NOT'', ''('', ''A'', ''AND'', ''B'', ''OR'', ''C'']\<rparr> = Inr b1
        \<and> build \<lparr>eb_paren_count = 0, eb_variables = [''A'', ''B'', ''C''],
             eb_operators = [''AND'', ''OR''], eb_not_expr = (''A'', 0),
             eb_parentheses = [], eb_expression = []\<rparr> [] = Inr (b1, [])
        \<and> eb_expression b1 = [''NOT'', ''('', ''A'', ''AND'', ''B'', '')'', ''OR'', ''C''])"
proof -
  let ?b0 = "\<lparr>eb_paren_count = 0, eb_variables = [''A'', ''B'', ''C''],
             eb_operators = [''AND'', ''OR''], eb_not_expr = (''A'', 0),
             eb_parentheses = [], eb_expression = []\<rparr>"
  let ?c = "[''A'', ''AND'', ''B'', ''OR'', ''C'']"
  have v: "valid_names [''A'', ''B'', ''C''] [''AND'', ''OR'']"
    by (simp add: valid_names_def)
  have i: "ExpressionBuilder_init [''A'', ''B'', ''C''] [''AND'', ''OR''] 0 [2, 1, 1, 0, 0]
      = Inr (?b0, [])"
    by code_simp
  have io: "insert_operators [''A'', ''B'', ''C''] [''AND'', ''OR''] = ?c"
    by code_simp
  have h: "snd (eb_not_expr ?b0) = 0" "0 < length (eb_variables ?b0)"
    "eb_variables ?b0 ! 0 = fst (eb_not_expr ?b0)"
    "?c = insert_operators (eb_variables ?b0) (eb_operators ?b0)"
    using io by simp_all
  from close_not_low [OF v i h]
  have "\<exists>b1. push_not ?b0 ?c = Inr [''NOT'', ''('', ''A'', ''AND'', ''B'', ''OR'', ''C'']
        \<and> close_not \<lparr>eb_paren_count = 0, eb_variables = [''A'', ''B'', ''C''],
             eb_operators = [''AND'', ''OR''], eb_not_expr = (''A'', 0),
             eb_parentheses = [],
             eb_expression = [''NOT'', ''('', ''A'', ''AND'', ''B'', ''OR'', ''C'']\<rparr> = Inr b1
        \<and> build \<lparr>eb_paren_count = 0, eb_variables = [''A'', ''B'', ''C''],
             eb_operators = [''AND'', ''OR''], eb_not_expr = (''A'', 0),
             eb_parentheses = [], eb_expression = []\<rparr> [] = Inr (b1, [])
        \<and> eb_expression b1 = [''NOT'', ''('', ''A'', ''AND'', ''B'', '')'', ''OR'', ''C'']"
    by simp
  with v i io show ?thesis by (intro conjI)
qed

text \<open>
  The claim places the parenthesis immediately before the next variable. For \<open>A AND B OR C\<close>
  with NOT on \<open>A\<close>, \<open>B\<close> stands at index 4 of \<open>NOT ( A AND B OR C\<close>; the code inserts at index
  5 and leaves \<open>NOT ( A AND B ) OR C\<close>, while an insertion before \<open>B\<close> would leave
  \<open>NOT ( A AND ) B OR C\<close>.
\<close>

theorem close_not_after_next_variable:
  "push_not \<lparr>eb_paren_count = 0, eb_variables = [''A'', ''B'', ''C''],
             eb_operators = [''AND'', ''OR''], eb_not_expr = (''A'', 0),
             eb_parentheses = [], eb_expression = []\<rparr>
      (insert_operators [''A'', ''B'', ''C''] [''AND'', ''OR''])
     = Inr [''NOT'', ''('', ''A'', ''AND'', ''B'', ''OR'', ''C'']
   \<and> close_not \<lparr>eb_paren_count = 0, eb_variables = [''A'', ''B'', ''C''],
             eb_operators = [''AND'', ''OR''], eb_not_expr = (''A'', 0),
             eb_parentheses = [],
             eb_expression = [''NOT'', ''('', ''A'', ''AND'', ''B'', ''OR'', ''C'']\<rparr>
     = Inr \<lparr>eb_paren_count = 0, eb_variables = [''A'', ''B'', ''C''],
             eb_operators = [''AND'', ''OR''], eb_not_expr = (''A'', 0),
             eb_parentheses = [(''A'', 2), (''B'', 4), (''C'', 6)],
             eb_expression = [''NOT'', ''('', ''A'', ''AND'', ''B'', '')'', ''OR'', ''C'']\<rparr>
   \<and> index_of [''NOT'', ''('', ''A'', ''AND'', ''B'', ''OR'', ''C''] ''B'' = Inr 4
   \<and> py_insert 4 '')'' [''NOT'', ''('', ''A'', ''AND'', ''B'', ''OR'', ''C'']
     = [''NOT'', ''('', ''A'', ''AND'', '')'', ''B'', ''OR'', ''C'']
   \<and> [''NOT'', ''('', ''A'', ''AND'', ''B'', '')'', ''OR'', ''C'']
       \<noteq> [''NOT'', ''('', ''A'', ''AND'', '')'', ''B'', ''OR'', ''C'']"
  by code_simp

end
